theory Spec2Isabelle
  imports Complex_Main "HOL-Library.AList" "HOL-Library.Char_ord"
begin

section \<open>ProJoin core (addmc/src/logic.cc): a shallow embedding\<close>

text \<open>
  The C++ type \<^verbatim>\<open>Int\<close> is a type alias of the header \<^verbatim>\<open>logic.hh\<close>; the specification
  treats variable ids and literals as elements of \<open>\<int>\<close>, and so does this theory
  (\<^typ>\<open>int\<close>). The built-in C++ type \<^verbatim>\<open>int\<close> is modelled with its 32-bit
  wrap-around written out where it is used.
\<close>

subsection \<open>class Assignment\<close>

text \<open>
  \<^verbatim>\<open>Assignment\<close> is a map from variables to Booleans. \<^verbatim>\<open>Assignment()\<close> is the empty map,
  \<^verbatim>\<open>Assignment(var, val)\<close> the map holding the single entry \<open>var \<mapsto> val\<close>, and
  \<^verbatim>\<open>assignment[var] = b\<close> stores or overwrites one entry.
\<close>

type_synonym Assignment = "int \<rightharpoonup> bool"

definition Assignment1 :: "int \<Rightarrow> bool \<Rightarrow> Assignment" where
  "Assignment1 var val = Map.empty(var \<mapsto> val)"

text \<open>
  The range-for of \<^verbatim>\<open>extendAssignments\<close>: each assignment (a copy) is updated to
  \<open>false\<close> and pushed, then updated to \<open>true\<close> and pushed.
\<close>

fun extendLoop :: "Assignment list \<Rightarrow> int \<Rightarrow> Assignment list" where
  "extendLoop [] var = []"
| "extendLoop (assignment # rest) var =
     assignment(var \<mapsto> False) # (assignment(var \<mapsto> False))(var \<mapsto> True) # extendLoop rest var"

definition extendAssignments :: "Assignment list \<Rightarrow> int \<Rightarrow> Assignment list" where
  "extendAssignments assignments var =
     (if assignments = [] then [Assignment1 var False, Assignment1 var True]
      else extendLoop assignments var)"

subsection \<open>Errors\<close>

text \<open>
  Every exception of the source is a value. \<^verbatim>\<open>MyError\<close> carries the leading literal
  text of its message; \<^verbatim>\<open>EmptyClauseException\<close> carries the line index and the line
  that its constructor prints after the warning prefix. \<open>out_of_range\<close> and
  \<open>invalid_argument\<close> are the exceptions of the standard library (\<^verbatim>\<open>at\<close>,
  \<^verbatim>\<open>stoll\<close>, \<^verbatim>\<open>stoi\<close>, \<^verbatim>\<open>stod\<close>), \<open>AssertionFailure\<close> is a failed \<^verbatim>\<open>assert\<close>, and
  \<open>end_dereferenced\<close> stands for reading through an \<^verbatim>\<open>end()\<close> iterator, which has no
  defined behaviour.
\<close>

datatype error =
    MyError string
  | EmptyClauseException int string
  | out_of_range
  | invalid_argument
  | AssertionFailure
  | end_dereferenced

subsection \<open>Sets of the utility layer\<close>

text \<open>
  Modelled from the spec: \<^verbatim>\<open>util::getUnion\<close>, \<^verbatim>\<open>util::isDisjoint\<close> and \<^verbatim>\<open>util::getDiff\<close>
  are templates of the header \<^verbatim>\<open>logic.hh\<close>, which is not part of the sources at hand; the
  specification describes them as the set algebra of the utility layer.
\<close>

definition getUnion :: "int set list \<Rightarrow> int set" where
  "getUnion sets = \<Union> (set sets)"

definition isDisjoint :: "int set \<Rightarrow> int set \<Rightarrow> bool" where
  "isDisjoint a b = (a \<inter> b = {})"

subsection \<open>class JoinNode: cluster choice\<close>

text \<open>
  The forward scan of \<^verbatim>\<open>chooseClusterIndex\<close>:
  \<^verbatim>\<open>for (Int target = clusterIndex + 1; target < projectableVarSets.size(); target++)\<close>.
\<close>

function scanClusters :: "int set \<Rightarrow> int set list \<Rightarrow> int \<Rightarrow> int" where
  "scanClusters postProjectionVars projectableVarSets target =
     (if 0 \<le> target \<and> target < int (length projectableVarSets) then
        (if \<not> isDisjoint postProjectionVars (projectableVarSets ! nat target) then target
         else scanClusters postProjectionVars projectableVarSets (target + 1))
      else int (length projectableVarSets))"
  by pat_completeness auto
termination
  by (relation "measure (\<lambda>(p, s, t). nat (int (length s) - t))") auto

declare scanClusters.simps [simp del]

text \<open>
  \<^verbatim>\<open>JoinNode::chooseClusterIndex\<close>. The node enters through its \<open>postProjectionVars\<close>
  (\<^verbatim>\<open>getPostProjectionVars()\<close>). The heuristic names \<^verbatim>\<open>BUCKET_LIST\<close> and \<^verbatim>\<open>BOUQUET_LIST\<close>
  are string constants of \<^verbatim>\<open>logic.hh\<close> and are parameters here.
\<close>

definition chooseClusterIndex ::
  "string \<Rightarrow> string \<Rightarrow> int set \<Rightarrow> int \<Rightarrow> int set list \<Rightarrow> string \<Rightarrow> error + int" where
  "chooseClusterIndex BUCKET_LIST BOUQUET_LIST postProjectionVars clusterIndex projectableVarSets
       clusteringHeuristic =
     (if clusterIndex < 0 \<or> clusterIndex \<ge> int (length projectableVarSets)
      then Inl (MyError ''clusterIndex == '')
      else if isDisjoint (getUnion projectableVarSets) postProjectionVars
      then Inr (int (length projectableVarSets))
      else if clusteringHeuristic = BUCKET_LIST \<or> clusteringHeuristic = BOUQUET_LIST
      then Inr (clusterIndex + 1)
      else Inr (scanClusters postProjectionVars projectableVarSets (clusterIndex + 1)))"

subsection \<open>class JoinNonterminal: slice assignments\<close>

text \<open>
  The loop of \<^verbatim>\<open>getAdditiveAssignments\<close>,
  \<^verbatim>\<open>for (Int i = 0, assignedVars = 0; i < varOrder.size() && assignedVars < sliceVarCount; i++)\<close>,
  on the part of \<open>varOrder\<close> from position \<open>i\<close> on.
\<close>

fun sliceLoop :: "int list \<Rightarrow> int set \<Rightarrow> int \<Rightarrow> int \<Rightarrow> Assignment list \<Rightarrow> Assignment list" where
  "sliceLoop [] additiveVars sliceVarCount assignedVars assignments = assignments"
| "sliceLoop (var # rest) additiveVars sliceVarCount assignedVars assignments =
     (if assignedVars < sliceVarCount then
        (if var \<in> additiveVars
         then sliceLoop rest additiveVars sliceVarCount (assignedVars + 1)
                (extendAssignments assignments var)
         else sliceLoop rest additiveVars sliceVarCount assignedVars assignments)
      else assignments)"

text \<open>
  \<^verbatim>\<open>JoinNonterminal::getAdditiveAssignments\<close>. \<open>getVarOrder\<close> stands for the node's own
  \<^verbatim>\<open>getVarOrder\<close>, \<open>additiveVars\<close> for \<^verbatim>\<open>cnf.additiveVars\<close>; timing and printing have no
  effect on the result.
\<close>

definition getAdditiveAssignments ::
  "(int \<Rightarrow> int list) \<Rightarrow> int set \<Rightarrow> int \<Rightarrow> int \<Rightarrow> Assignment list" where
  "getAdditiveAssignments getVarOrder additiveVars varOrderHeuristic sliceVarCount =
     (if sliceVarCount \<le> 0 then [Map.empty]
      else sliceLoop (getVarOrder varOrderHeuristic) additiveVars sliceVarCount 0 [])"

subsection \<open>class Graph\<close>

text \<open>
  \<^verbatim>\<open>Set<Int>\<close> and \<^verbatim>\<open>Map<Int, V>\<close> are hash containers: the order in which a range-for
  visits them is not fixed by the keys. A set is modelled as a list without repetition
  and a map as an association list; the order of the list is the order of iteration.
  \<^verbatim>\<open>insert\<close> is \<^const>\<open>List.insert\<close>, \<^verbatim>\<open>erase\<close> is \<^const>\<open>removeAll\<close>, \<^verbatim>\<open>at\<close> is
  \<^const>\<open>map_of\<close> (throwing \<open>out_of_range\<close> on \<open>None\<close>), \<^verbatim>\<open>m[k] = v\<close> is \<open>AList.update\<close>.
\<close>

record Graph =
  vertices :: "int list"
  adjacencyMap :: "(int \<times> int list) list"

definition emptyGraph :: Graph where
  "emptyGraph = \<lparr>vertices = [], adjacencyMap = []\<rparr>"

definition newGraph :: "int list \<Rightarrow> Graph" where
  "newGraph vs =
     foldl (\<lambda>g v. \<lparr>vertices = List.insert v (vertices g),
                    adjacencyMap = AList.update v [] (adjacencyMap g)\<rparr>) emptyGraph vs"

definition addEdge :: "Graph \<Rightarrow> int \<Rightarrow> int \<Rightarrow> error + Graph" where
  "addEdge g v1 v2 =
     (case map_of (adjacencyMap g) v1 of
        None \<Rightarrow> Inl out_of_range
      | Some n1 \<Rightarrow>
          (let am = AList.update v1 (List.insert v2 n1) (adjacencyMap g) in
           case map_of am v2 of
             None \<Rightarrow> Inl out_of_range
           | Some n2 \<Rightarrow> Inr (g\<lparr>adjacencyMap := AList.update v2 (List.insert v1 n2) am\<rparr>)))"

definition isNeighbor :: "Graph \<Rightarrow> int \<Rightarrow> int \<Rightarrow> error + bool" where
  "isNeighbor g v1 v2 =
     (case map_of (adjacencyMap g) v1 of
        None \<Rightarrow> Inl out_of_range
      | Some n1 \<Rightarrow> Inr (v2 \<in> set n1))"

definition removeVertex :: "Graph \<Rightarrow> int \<Rightarrow> Graph" where
  "removeVertex g v =
     \<lparr>vertices = removeAll v (vertices g),
      adjacencyMap = map (\<lambda>(u, ns). (u, removeAll v ns)) (AList.delete v (adjacencyMap g))\<rparr>"

text \<open>\<^verbatim>\<open>util::getDiff\<close> on the list model: the members of the first set outside the second.\<close>

definition getDiff :: "int list \<Rightarrow> int list \<Rightarrow> int list" where
  "getDiff a b = filter (\<lambda>x. x \<notin> set b) a"

text \<open>
  The recursive \<^verbatim>\<open>hasPath(from, to, visitedVertices)\<close> returns its answer together
  with the visited set, which the source passes by reference. The first argument
  bounds the depth of the recursion; \<open>None\<close> means that the bound was reached.
\<close>

fun hasPath3 :: "nat \<Rightarrow> Graph \<Rightarrow> int \<Rightarrow> int \<Rightarrow> int list \<Rightarrow> (error + bool \<times> int list) option"
  and hasPathLoop :: "nat \<Rightarrow> Graph \<Rightarrow> int list \<Rightarrow> int \<Rightarrow> int list \<Rightarrow> (error + bool \<times> int list) option"
where
  "hasPath3 0 g from to visitedVertices = None"
| "hasPath3 (Suc n) g from to visitedVertices =
     (if from = to then Some (Inr (True, visitedVertices))
      else
        (let visited = List.insert from visitedVertices in
         case map_of (adjacencyMap g) from of
           None \<Rightarrow> Some (Inl out_of_range)
         | Some ns \<Rightarrow> hasPathLoop n g (getDiff ns visited) to visited))"
| "hasPathLoop n g [] to visitedVertices = Some (Inr (False, visitedVertices))"
| "hasPathLoop n g (v # unvisitedNeighbors) to visitedVertices =
     (case hasPath3 n g v to visitedVertices of
        None \<Rightarrow> None
      | Some (Inl e) \<Rightarrow> Some (Inl e)
      | Some (Inr (found, visited)) \<Rightarrow>
          if found then Some (Inr (True, visited))
          else hasPathLoop n g unvisitedNeighbors to visited)"

text \<open>
  \<^verbatim>\<open>hasPath(from, to)\<close>. No chain of nested calls is longer than the number of keys of
  the adjacency map plus one (each call below the first is on a key that no enclosing
  call is on).
\<close>

definition hasPath :: "Graph \<Rightarrow> int \<Rightarrow> int \<Rightarrow> (error + bool) option" where
  "hasPath g from to =
     map_option (map_sum id fst) (hasPath3 (Suc (length (adjacencyMap g))) g from to [])"

text \<open>A run of calls on a graph; the run ends at the first exception.\<close>

datatype GraphCall = AddEdge int int | RemoveVertex int

fun callSeq :: "Graph \<Rightarrow> GraphCall list \<Rightarrow> error + Graph" where
  "callSeq g [] = Inr g"
| "callSeq g (AddEdge v1 v2 # cs) =
     (case addEdge g v1 v2 of Inl e \<Rightarrow> Inl e | Inr g' \<Rightarrow> callSeq g' cs)"
| "callSeq g (RemoveVertex v # cs) = callSeq (removeVertex g v) cs"


text \<open>The adjacency relation, read through \<^verbatim>\<open>isNeighbor\<close>, is symmetric.\<close>

definition symmetricAdj :: "Graph \<Rightarrow> bool" where
  "symmetricAdj g \<longleftrightarrow>
     (\<forall>u x. isNeighbor g u x = Inr True \<longrightarrow> isNeighbor g x u = Inr True)"

subsection \<open>Pseudo-Boolean constraints\<close>

text \<open>
  The conversion of a value to the C++ type \<^verbatim>\<open>int\<close> (32 bits, two's complement): the
  value modulo \<open>2^32\<close> in the range from \<open>-2^31\<close> to \<open>2^31 - 1\<close>.
\<close>

definition int32 :: "int \<Rightarrow> int" where
  "int32 x = (x + 2 ^ 31) mod 2 ^ 32 - 2 ^ 31"

text \<open>
  \<^verbatim>\<open>coefs[var]\<close> on a \<^verbatim>\<open>Map<Int, Int>\<close>: a missing key is first stored with the value \<open>0\<close>
  (\<open>touch\<close> is the map afterwards, \<open>valueAt\<close> the value read).
\<close>

definition touch :: "(int \<rightharpoonup> int) \<Rightarrow> int \<Rightarrow> (int \<rightharpoonup> int)" where
  "touch m k = (case m k of None \<Rightarrow> m(k \<mapsto> 0) | Some c \<Rightarrow> m)"

definition valueAt :: "(int \<rightharpoonup> int) \<Rightarrow> int \<Rightarrow> int" where
  "valueAt m k = (case m k of None \<Rightarrow> 0 | Some c \<Rightarrow> c)"

text \<open>The loop of the branch \<^verbatim>\<open>*comparator == 3\<close>: \<^verbatim>\<open>coefs[var] *= -1\<close> for each element.\<close>

fun negateLoop :: "int list \<Rightarrow> (int \<rightharpoonup> int) \<Rightarrow> (int \<rightharpoonup> int)" where
  "negateLoop [] coefs = coefs"
| "negateLoop (x # rest) coefs =
     (let var = int32 x in
      negateLoop rest ((touch coefs var)(var \<mapsto> valueAt coefs var * (- 1))))"

text \<open>
  The second loop. For an element with a negative coefficient it runs, in this order,
  \<^verbatim>\<open>coefs.insert(pair<int,int>(-var, -coefs[var]))\<close> (no effect when the key is present; both
  components pass through \<^verbatim>\<open>int\<close>), \<^verbatim>\<open>tempVar.push_back(-var)\<close>, \<^verbatim>\<open>(*k) -= coefs[var]\<close>
  (assigned to an \<^verbatim>\<open>int\<close>) and \<^verbatim>\<open>coefs.erase(var)\<close>.
\<close>

fun flipLoop ::
  "int list \<Rightarrow> (int \<rightharpoonup> int) \<Rightarrow> int list \<Rightarrow> int \<Rightarrow> (int \<rightharpoonup> int) \<times> int list \<times> int" where
  "flipLoop [] coefs tempVar k = (coefs, tempVar, k)"
| "flipLoop (x # rest) coefs tempVar k =
     (let var = int32 x;
          coefs1 = touch coefs var
      in if valueAt coefs var < 0 then
           (let key = int32 (- var);
                val = int32 (- valueAt coefs1 var);
                coefs2 = touch coefs1 var;
                coefs3 = (if coefs2 key = None then coefs2(key \<mapsto> val) else coefs2);
                tempVar1 = tempVar @ [int32 (- var)];
                k1 = int32 (k - valueAt coefs3 var);
                coefs4 = (touch coefs3 var)(var := None)
            in flipLoop rest coefs4 tempVar1 k1)
         else flipLoop rest coefs1 tempVar k)"

text \<open>The third loop: \<^verbatim>\<open>clause.insert(var); clause.erase(-var)\<close> for each element of \<^verbatim>\<open>tempVar\<close>.\<close>

fun moveLoop :: "int list \<Rightarrow> int list \<Rightarrow> int list" where
  "moveLoop [] clause = clause"
| "moveLoop (var # rest) clause = moveLoop rest (removeAll (- var) (List.insert var clause))"

text \<open>
  \<^verbatim>\<open>PB_canonicalize(clause, coefs, k, comparator)\<close> with the comparator codes \<open>1\<close> for
  \<open>\<ge>\<close>, \<open>2\<close> for \<open>=\<close> and \<open>3\<close> for \<open>\<le>\<close>; the result is the four arguments after the call.
\<close>

definition PB_canonicalize ::
  "int list \<Rightarrow> (int \<rightharpoonup> int) \<Rightarrow> int \<Rightarrow> int \<Rightarrow> int list \<times> (int \<rightharpoonup> int) \<times> int \<times> int" where
  "PB_canonicalize clause coefs k comparator =
     (let (comparator1, k1, coefs1) =
            (if comparator = 3 then (1, int32 (- k), negateLoop clause coefs)
             else (comparator, k, coefs));
          (coefs2, tempVar, k2) = flipLoop clause coefs1 [] k1;
          clause1 = moveLoop tempVar clause
      in (clause1, coefs2, k2, comparator1))"

text \<open>
  Modelled from the spec: the meaning of a PB constraint. The code that evaluates a
  constraint is in the decision-diagram layer, outside the sources at hand. An element
  \<open>l\<close> of the clause is a literal, the variable \<open>l\<close> when positive and the negation of
  the variable \<open>-l\<close> otherwise (\<open>x\<^sub>v = 1 - x\<^sub>-\<^sub>v\<close>); the constraint compares the sum of the
  coefficients of the true literals with \<open>k\<close>.
\<close>

definition literalHolds :: "(int \<Rightarrow> bool) \<Rightarrow> int \<Rightarrow> bool" where
  "literalHolds \<sigma> l = (if 0 < l then \<sigma> l else \<not> \<sigma> (- l))"

definition pbSum :: "(int \<Rightarrow> bool) \<Rightarrow> int list \<Rightarrow> (int \<rightharpoonup> int) \<Rightarrow> int" where
  "pbSum \<sigma> clause coefs = (\<Sum>l\<leftarrow>clause. valueAt coefs l * (if literalHolds \<sigma> l then 1 else 0))"

definition pbHolds :: "(int \<Rightarrow> bool) \<Rightarrow> int list \<Rightarrow> (int \<rightharpoonup> int) \<Rightarrow> int \<Rightarrow> int \<Rightarrow> bool" where
  "pbHolds \<sigma> clause coefs k comparator =
     (if comparator = 1 then k \<le> pbSum \<sigma> clause coefs
      else if comparator = 2 then pbSum \<sigma> clause coefs = k
      else if comparator = 3 then pbSum \<sigma> clause coefs \<le> k
      else False)"

subsection \<open>Strings and numbers of the input\<close>

text \<open>Exceptions propagate: the first error of a sequence of steps is its result.\<close>

definition bindE :: "error + 'a \<Rightarrow> ('a \<Rightarrow> error + 'b) \<Rightarrow> error + 'b" where
  "bindE r f = (case r of Inl e \<Rightarrow> Inl e | Inr v \<Rightarrow> f v)"

text \<open>
  \<^verbatim>\<open>util::splitInputLine\<close>: the words of a line, as \<^verbatim>\<open>istream_iterator<string>\<close> reads
  them, are its maximal runs of characters other than white space.
\<close>

definition isSpace :: "char \<Rightarrow> bool" where
  "isSpace c = (c \<in> {CHR '' '', CHR 0x09, CHR 0x0A, CHR 0x0B, CHR 0x0C, CHR 0x0D})"

fun splitWords :: "string \<Rightarrow> string \<Rightarrow> string list" where
  "splitWords word [] = (if word = [] then [] else [word])"
| "splitWords word (c # cs) =
     (if isSpace c then (if word = [] then splitWords [] cs else word # splitWords [] cs)
      else splitWords (word @ [c]) cs)"

definition splitInputLine :: "string \<Rightarrow> string list" where
  "splitInputLine line = splitWords [] line"

text \<open>\<^verbatim>\<open>words.at(i)\<close> on a vector.\<close>

definition at_vec :: "'a list \<Rightarrow> nat \<Rightarrow> error + 'a" where
  "at_vec xs i = (if i < length xs then Inr (xs ! i) else Inl out_of_range)"

definition starts_with :: "string \<Rightarrow> string \<Rightarrow> bool" where
  "starts_with s prefix = (take (length prefix) s = prefix)"

text \<open>
  \<^verbatim>\<open>s.substr(pos, count)\<close> throws \<open>out_of_range\<close> when \<open>pos\<close> is beyond the end, and
  takes the rest of the string when \<open>count\<close> reaches beyond it. The count
  \<^verbatim>\<open>length() - 2\<close> is a \<^verbatim>\<open>size_t\<close>: for a string shorter than two characters it wraps to
  a count beyond every length, for which the length itself stands here.
\<close>

definition substr :: "string \<Rightarrow> nat \<Rightarrow> nat \<Rightarrow> error + string" where
  "substr s pos count = (if pos \<le> length s then Inr (take count (drop pos s)) else Inl out_of_range)"

definition lengthMinus2 :: "string \<Rightarrow> nat" where
  "lengthMinus2 s = (if 2 \<le> length s then length s - 2 else length s)"

text \<open>
  \<^verbatim>\<open>stoll\<close> and \<^verbatim>\<open>stoi\<close> read leading white space, an optional sign and the longest run
  of decimal digits; what follows is ignored. Without a digit they throw
  \<open>invalid_argument\<close>, and \<open>out_of_range\<close> when the value does not fit \<^verbatim>\<open>long long\<close>
  (64 bits) or \<^verbatim>\<open>int\<close> (32 bits).
\<close>

definition isDigit :: "char \<Rightarrow> bool" where
  "isDigit c = (CHR ''0'' \<le> c \<and> c \<le> CHR ''9'')"

definition digitValue :: "char \<Rightarrow> int" where
  "digitValue c = int (of_char c) - 48"

fun readDigits :: "int \<Rightarrow> string \<Rightarrow> int" where
  "readDigits acc [] = acc"
| "readDigits acc (c # cs) = (if isDigit c then readDigits (10 * acc + digitValue c) cs else acc)"

definition strtoInt :: "int \<Rightarrow> string \<Rightarrow> error + int" where
  "strtoInt bits s =
     (let t = dropWhile isSpace s;
          negative = (t \<noteq> [] \<and> hd t = CHR ''-'');
          u = (if t \<noteq> [] \<and> (hd t = CHR ''-'' \<or> hd t = CHR ''+'') then tl t else t)
      in if u = [] \<or> \<not> isDigit (hd u) then Inl invalid_argument
         else (let v = (if negative then - readDigits 0 u else readDigits 0 u)
               in if - (2 ^ nat (bits - 1)) \<le> v \<and> v < 2 ^ nat (bits - 1) then Inr v
                  else Inl out_of_range))"

definition stoll :: "string \<Rightarrow> error + int" where
  "stoll s = strtoInt 64 s"

definition stoi :: "string \<Rightarrow> error + int" where
  "stoi s = strtoInt 32 s"

subsection \<open>class Number\<close>

text \<open>
  A \<^verbatim>\<open>Number\<close> holds a rational (\<^verbatim>\<open>quotient\<close>, an \<^verbatim>\<open>mpq_class\<close>) or a floating-point value
  (\<^verbatim>\<open>fraction\<close>, a \<^verbatim>\<open>Float\<close>), by the global flag \<^verbatim>\<open>multiplePrecision\<close>. What the class
  takes from libraries: the readers \<^verbatim>\<open>mpq_class(s)\<close> and \<^verbatim>\<open>mpf_class(s)\<close> of GMP (the second
  with the conversion \<^verbatim>\<open>mpq_class(mpf_class(s))\<close>, which is exact: the value of an \<^verbatim>\<open>mpf_class\<close>
  is a rational), \<^verbatim>\<open>stold\<close>, and the arithmetic and comparisons of \<^verbatim>\<open>Float\<close>. The arithmetic
  of \<^verbatim>\<open>mpq_class\<close> is that of the rationals.
\<close>

datatype 'f Number = Quotient rat | Fraction 'f

record 'f NumberLib =
  multiplePrecision :: bool
  mpq_class :: "string \<Rightarrow> error + rat"
  mpf_class :: "string \<Rightarrow> error + rat"
  stold :: "string \<Rightarrow> error + 'f"
  floatDiv :: "'f \<Rightarrow> 'f \<Rightarrow> 'f"
  floatMinus :: "'f \<Rightarrow> 'f \<Rightarrow> 'f"
  floatLess :: "'f \<Rightarrow> 'f \<Rightarrow> bool"
  floatEq :: "'f \<Rightarrow> 'f \<Rightarrow> bool"

text \<open>
  The member \<^verbatim>\<open>quotient\<close> of a \<^verbatim>\<open>Number\<close> built from a \<^verbatim>\<open>Float\<close> is a default \<^verbatim>\<open>mpq_class\<close>,
  zero; the member \<^verbatim>\<open>fraction\<close> of one built from an \<^verbatim>\<open>mpq_class\<close> is not initialised.
\<close>

fun Number_quotient :: "'f Number \<Rightarrow> rat" where
  "Number_quotient (Quotient q) = q"
| "Number_quotient (Fraction f) = 0"

fun Number_fraction :: "'f Number \<Rightarrow> 'f" where
  "Number_fraction (Fraction f) = f"

text \<open>\<^verbatim>\<open>Number::Number(const mpq_class& q)\<close> and \<^verbatim>\<open>Number::Number(Float f)\<close>.\<close>

definition Number_mpq :: "'f NumberLib \<Rightarrow> rat \<Rightarrow> error + 'f Number" where
  "Number_mpq lib q = (if multiplePrecision lib then Inr (Quotient q) else Inl AssertionFailure)"

definition Number_Float :: "'f NumberLib \<Rightarrow> 'f \<Rightarrow> error + 'f Number" where
  "Number_Float lib f = (if \<not> multiplePrecision lib then Inr (Fraction f) else Inl AssertionFailure)"

text \<open>
  \<^verbatim>\<open>Number::Number(string s)\<close>. With \<^verbatim>\<open>divPos = s.find('/')\<close>, \<^verbatim>\<open>s.substr(0, divPos)\<close> is the text
  before the first \<open>/\<close> and \<^verbatim>\<open>s.substr(divPos + 1)\<close> the text after it.
\<close>

definition Number_string :: "'f NumberLib \<Rightarrow> string \<Rightarrow> error + 'f Number" where
  "Number_string lib s =
     (if multiplePrecision lib then
        (if CHR ''/'' \<in> set s then bindE (mpq_class lib s) (Number_mpq lib)
         else bindE (mpf_class lib s) (Number_mpq lib))
      else
        (if CHR ''/'' \<in> set s then
           bindE (stold lib (takeWhile (\<lambda>c. c \<noteq> CHR ''/'') s)) (\<lambda>numerator.
           bindE (stold lib (tl (dropWhile (\<lambda>c. c \<noteq> CHR ''/'') s))) (\<lambda>denominator.
             Number_Float lib (floatDiv lib numerator denominator)))
         else bindE (stold lib s) (Number_Float lib)))"

text \<open>
  \<^verbatim>\<open>Number::operator==\<close>, \<^verbatim>\<open>operator<\<close> and \<^verbatim>\<open>operator-\<close>; the assertion of the constructor
  that \<^verbatim>\<open>operator-\<close> calls holds in its branch.
\<close>

definition Number_eq :: "'f NumberLib \<Rightarrow> 'f Number \<Rightarrow> 'f Number \<Rightarrow> bool" where
  "Number_eq lib a n =
     (if multiplePrecision lib then Number_quotient a = Number_quotient n
      else floatEq lib (Number_fraction a) (Number_fraction n))"

definition Number_less :: "'f NumberLib \<Rightarrow> 'f Number \<Rightarrow> 'f Number \<Rightarrow> bool" where
  "Number_less lib a n =
     (if multiplePrecision lib then Number_quotient a < Number_quotient n
      else floatLess lib (Number_fraction a) (Number_fraction n))"

definition Number_minus :: "'f NumberLib \<Rightarrow> 'f Number \<Rightarrow> 'f Number \<Rightarrow> 'f Number" where
  "Number_minus lib a n =
     (if multiplePrecision lib then Quotient (Number_quotient a - Number_quotient n)
      else Fraction (floatMinus lib (Number_fraction a) (Number_fraction n)))"

subsection \<open>class Cnf\<close>

text \<open>
  What the parser takes from outside this file: the process-wide flags, the constant
  \<^verbatim>\<open>MIN_INT\<close> and the default arguments of \<^verbatim>\<open>addClause\<close> (declared in \<^verbatim>\<open>logic.hh\<close>), the
  library function \<^verbatim>\<open>stod\<close>, and of class \<^verbatim>\<open>Number\<close> its constructor from a string, the value
  of \<^verbatim>\<open>Number()\<close>, and its operators \<^verbatim>\<open><\<close>, \<^verbatim>\<open>==\<close> and \<^verbatim>\<open>-\<close>: the parser and the theorems
  about it hold for every such class, and for class \<^verbatim>\<open>Number\<close> as embedded above. The last three fields are
  the values that \<^verbatim>\<open>declaredVarCount\<close>, \<^verbatim>\<open>trivialBoundPartialMaxSAT\<close> and the global
  \<^verbatim>\<open>minMaxsatSolving\<close> hold when the constructor starts.
\<close>

record 'n Env =
  weightedCounting :: bool
  projectedCounting :: bool
  maxsatSolving :: bool
  logCounting :: bool
  MIN_INT :: int
  stod :: "string \<Rightarrow> error + real"
  Number :: "string \<Rightarrow> error + 'n"
  Number0 :: 'n
  numLess :: "'n \<Rightarrow> 'n \<Rightarrow> bool"
  numEq :: "'n \<Rightarrow> 'n \<Rightarrow> bool"
  numMinus :: "'n \<Rightarrow> 'n \<Rightarrow> 'n"
  defaultComparator :: int
  defaultCoefs :: "int \<rightharpoonup> int"
  defaultK :: int
  initDeclaredVarCount :: int
  initTrivialBound :: int
  initMinMaxsatSolving :: bool

text \<open>\<^verbatim>\<open>Number::operator<=\<close>: \<^verbatim>\<open>*this < n || *this == n\<close>.\<close>

definition numLessEq :: "'n Env \<Rightarrow> 'n \<Rightarrow> 'n \<Rightarrow> bool" where
  "numLessEq env a b = (numLess env a b \<or> numEq env a b)"

text \<open>
  The members of \<^verbatim>\<open>Cnf\<close>. A clause is a set of literals (\<^verbatim>\<open>clause.insert(num)\<close>);
  \<^verbatim>\<open>literalWeights\<close> and the coefficient maps are only read by key.
\<close>

record 'n Cnf =
  declaredVarCount :: int
  clauses :: "int list list"
  types :: "char list"
  weights :: "real list"
  coefLists :: "(int \<rightharpoonup> int) list"
  comparators :: "int list"
  klist :: "int list"
  literalWeights :: "int \<rightharpoonup> 'n"
  additiveVars :: "int set"
  varToClauses :: "(int \<times> int list) list"
  apparentVars :: "int list"
  trivialBoundPartialMaxSAT :: int

text \<open>
  The constructor's local variables, and the global \<^verbatim>\<open>minMaxsatSolving\<close> that it
  assigns.
\<close>

record 'n Parse = "'n Cnf" +
  declaredClauseCount :: int
  processedClauseCount :: int
  lineIndex :: int
  problemLineIndex :: int
  wcnfFlag :: int
  hwcnfFlag :: int
  minMaxsatSolving :: bool

text \<open>The loop of \<^verbatim>\<open>addClause\<close> over the literals of the clause.\<close>

fun indexClause :: "int \<Rightarrow> int list \<Rightarrow> (int \<times> int list) list \<Rightarrow> (int \<times> int list) list" where
  "indexClause clauseIndex [] v2c = v2c"
| "indexClause clauseIndex (literal # rest) v2c =
     (let var = \<bar>literal\<bar> in
      indexClause clauseIndex rest
        (case map_of v2c var of
           Some s \<Rightarrow> AList.update var (List.insert clauseIndex s) v2c
         | None \<Rightarrow> AList.update var [clauseIndex] v2c))"

definition addClause ::
  "('n, 'a) Cnf_scheme \<Rightarrow> int list \<Rightarrow> char \<Rightarrow> real \<Rightarrow> int \<Rightarrow> (int \<rightharpoonup> int) \<Rightarrow> int \<Rightarrow>
   ('n, 'a) Cnf_scheme" where
  "addClause cnf clause type weight comparator coefs k =
     (let clauseIndex = int (length (clauses cnf)) in
      cnf\<lparr>clauses := clauses cnf @ [clause],
          types := types cnf @ [type],
          weights := weights cnf @ [weight],
          coefLists := coefLists cnf @ [coefs],
          comparators := comparators cnf @ [comparator],
          klist := klist cnf @ [k],
          varToClauses := indexClause clauseIndex clause (varToClauses cnf)\<rparr>)"

text \<open>The problem line \<^verbatim>\<open>p ...\<close>.\<close>

definition problemLine :: "'n Env \<Rightarrow> 'n Parse \<Rightarrow> string list \<Rightarrow> error + 'n Parse" where
  "problemLine env st words =
     (if problemLineIndex st \<noteq> MIN_INT env then Inl (MyError ''multiple problem lines: '')
      else if length words < 4 then Inl (MyError ''problem line '')
      else
        bindE (bindE (at_vec words 2) stoll) (\<lambda>n.
        bindE (bindE (at_vec words 3) stoll) (\<lambda>m.
        bindE (at_vec words 1) (\<lambda>format.
          (let hw = (if format = ''hwcnf'' then 1 else 0);
               w = (if hw = 1 then 1 else if format = ''wcnf'' then 1 else 0);
               st1 = st\<lparr>problemLineIndex := lineIndex st, declaredVarCount := n,
                        declaredClauseCount := m, wcnfFlag := w, hwcnfFlag := hw\<rparr>
           in if w = 1 \<and> length words = 5
              then bindE (bindE (at_vec words 4) stoll) (\<lambda>top.
                     Inr (st1\<lparr>trivialBoundPartialMaxSAT := top\<rparr>))
              else Inr st1)))))"

text \<open>The problem line of a WBO/PBO file, \<^verbatim>\<open>* #variable= ...\<close>.\<close>

definition wboLine :: "'n Parse \<Rightarrow> string list \<Rightarrow> error + 'n Parse" where
  "wboLine st words =
     bindE (bindE (at_vec words 2) stoll) (\<lambda>n.
     bindE (bindE (at_vec words 4) stoll) (\<lambda>m.
     bindE (bindE (at_vec words 12) stoll) (\<lambda>top.
       Inr (st\<lparr>declaredVarCount := n, declaredClauseCount := m,
               trivialBoundPartialMaxSAT := top, problemLineIndex := lineIndex st\<rparr>))))"

text \<open>A weight line, \<^verbatim>\<open>w literal weight\<close> or \<^verbatim>\<open>c p weight literal weight 0\<close>.\<close>

definition weightLine :: "'n Env \<Rightarrow> 'n Parse \<Rightarrow> string list \<Rightarrow> error + 'n Parse" where
  "weightLine env st words =
     (if problemLineIndex st = MIN_INT env
      then Inl (MyError ''no problem line before weighted literal | line '')
      else
        bindE (bindE (at_vec words (if hd words = ''w'' then 1 else 3)) stoll) (\<lambda>literal.
          if \<bar>literal\<bar> > declaredVarCount st then Inl (MyError ''literal '')
          else
            bindE (bindE (at_vec words (if hd words = ''w'' then 2 else 4)) (Number env)) (\<lambda>weight.
              if numLess env weight (Number0 env)
              then Inl (MyError ''weight must be non-negative | line '')
              else Inr (st\<lparr>literalWeights := (literalWeights st)(literal \<mapsto> weight)\<rparr>))))"

text \<open>
  The loop of a show line, from word \<open>i\<close> on; every round first assigns
  \<^verbatim>\<open>minMaxsatSolving = maxsatSolving\<close>.
\<close>

function showLoop :: "'n Env \<Rightarrow> string list \<Rightarrow> nat \<Rightarrow> 'n Parse \<Rightarrow> error + 'n Parse" where
  "showLoop env words i st =
     (if i < length words then
        (let st1 = st\<lparr>minMaxsatSolving := maxsatSolving env\<rparr> in
         bindE (bindE (at_vec words i) stoll) (\<lambda>num.
           if num = 0 then
             (if i \<noteq> length words - 1
              then Inl (MyError ''additive vars terminated prematurely by 0 | line '')
              else showLoop env words (i + 1) st1)
           else if num < 0 \<or> num > declaredVarCount st1 then Inl (MyError ''var '')
           else showLoop env words (i + 1) (st1\<lparr>additiveVars := insert num (additiveVars st1)\<rparr>)))
      else Inr st)"
  by pat_completeness auto
termination
  by (relation "measure (\<lambda>(env, words, i, st). length words - i)") auto

declare showLoop.simps [simp del]

definition showLine :: "'n Env \<Rightarrow> 'n Parse \<Rightarrow> string list \<Rightarrow> error + 'n Parse" where
  "showLine env st words =
     (if problemLineIndex st = MIN_INT env
      then Inl (MyError ''no problem line before projected var | line '')
      else showLoop env words (if hd words = ''vp'' \<or> hd words = ''vm'' then 1 else 3) st)"

text \<open>A line whose first word is \<^verbatim>\<open>w\<close>, \<^verbatim>\<open>vp\<close>, \<^verbatim>\<open>c\<close> or \<^verbatim>\<open>vm\<close>.\<close>

definition isWeightLine :: "'n Env \<Rightarrow> string list \<Rightarrow> bool" where
  "isWeightLine env words =
     (weightedCounting env \<and>
      (hd words = ''w'' \<or> (length words > 4 \<and> words ! 1 = ''p'' \<and> words ! 2 = ''weight'')))"

definition isShowLine :: "'n Env \<Rightarrow> string list \<Rightarrow> bool" where
  "isShowLine env words =
     ((projectedCounting env \<or> maxsatSolving env) \<and>
      (hd words = ''vp'' \<or> hd words = ''vm'' \<or>
       (length words > 3 \<and> words ! 1 = ''p'' \<and> words ! 2 = ''show'')))"

definition weightOrShowLine :: "'n Env \<Rightarrow> 'n Parse \<Rightarrow> string list \<Rightarrow> error + 'n Parse" where
  "weightOrShowLine env st words =
     (if isWeightLine env words then weightLine env st words
      else if isShowLine env words then showLine env st words
      else Inr st)"

text \<open>
  The term loop of a PB constraint,
  \<^verbatim>\<open>for (int i = 0; i < (words.size() - 3) / 2; i++)\<close>. The bound is computed in
  \<^verbatim>\<open>size_t\<close>: with fewer than three words it wraps, and the loop ends by the
  \<open>out_of_range\<close> of \<^verbatim>\<open>words.at(i*2+1)\<close>.
\<close>

definition termCount :: "string list \<Rightarrow> nat" where
  "termCount words =
     (if 3 \<le> length words then (length words - 3) div 2 else (2 ^ 64 + length words - 3) div 2)"

function termLoop ::
  "string list \<Rightarrow> nat \<Rightarrow> int list \<Rightarrow> (int \<rightharpoonup> int) \<Rightarrow> error + int list \<times> (int \<rightharpoonup> int)" where
  "termLoop words i clause coefs =
     (if i < termCount words \<and> i * 2 + 1 < length words then
        bindE (at_vec words (i * 2 + 1)) (\<lambda>str.
        bindE (bindE (substr str 1 (length str)) stoll) (\<lambda>var.
        bindE (stoi (words ! (i * 2))) (\<lambda>coef.
          termLoop words (i + 1) (List.insert var clause)
            (if coefs var = None then coefs(var \<mapsto> coef) else coefs))))
      else if i < termCount words then Inl out_of_range
      else Inr (clause, coefs))"
  by pat_completeness auto
termination
  by (relation "measure (\<lambda>(words, i, clause, coefs). length words - (i * 2 + 1))") auto

declare termLoop.simps [simp del]

text \<open>
  The rest of a PB constraint: comparator and \<open>k\<close> (\<^verbatim>\<open>words[words.size()-3]\<close>,
  \<^verbatim>\<open>words[words.size()-2]\<close>), canonicalization and \<^verbatim>\<open>addClause\<close>.
\<close>

definition comparatorCode :: "string \<Rightarrow> int" where
  "comparatorCode comparator_string =
     (if comparator_string = ''>='' then 1
      else if comparator_string = ''='' then 2
      else if comparator_string = ''<='' then 3
      else 0)"

definition pbConstraint :: "'n Parse \<Rightarrow> string list \<Rightarrow> real \<Rightarrow> error + 'n Parse" where
  "pbConstraint st words weight =
     bindE (termLoop words 0 [] Map.empty) (\<lambda>(clause, coefs).
     bindE (stoi (words ! (length words - 2))) (\<lambda>k.
       (let comparator = comparatorCode (words ! (length words - 3));
            (clause1, coefs1, k1, comparator1) = PB_canonicalize clause coefs k comparator
        in Inr (addClause st clause1 (CHR ''p'') weight comparator1 coefs1 k1))))"

text \<open>
  The literal loop of a clause line, from word \<open>i\<close> on. The source has it twice: for
  \<^verbatim>\<open>hwcnf\<close> input, and with the branch that catches the weight of a WCNF clause
  (\<open>catchWeight\<close> is the value of \<^verbatim>\<open>wcnfFlag\<close> there, and false for the first copy).
\<close>

function clauseLoop ::
  "'n Env \<Rightarrow> bool \<Rightarrow> string \<Rightarrow> string list \<Rightarrow> nat \<Rightarrow> int list \<Rightarrow> char \<Rightarrow> real \<Rightarrow> 'n Parse \<Rightarrow>
   error + 'n Parse" where
  "clauseLoop env catchWeight line words i clause type weight st =
     (if i < length words then
        (if words ! i = ''x'' then
           clauseLoop env catchWeight line words (i + 1) clause (CHR ''x'') weight st
         else if (catchWeight \<and> type = CHR ''c'' \<and> i = 0) \<or> (catchWeight \<and> type = CHR ''x'' \<and> i = 1) then
           bindE (stod env (words ! i)) (\<lambda>w.
             clauseLoop env catchWeight line words (i + 1) clause type w st)
         else
           bindE (stoll (words ! i)) (\<lambda>num.
             if num > declaredVarCount st \<or> num < - declaredVarCount st
             then Inl (MyError ''literal '')
             else if num = 0 then
               (if i \<noteq> length words - 1
                then Inl (MyError ''clause terminated prematurely by 0 | line '')
                else if clause = [] then Inl (EmptyClauseException (lineIndex st) line)
                else clauseLoop env catchWeight line words (i + 1) clause type weight
                       ((addClause st clause type weight (defaultComparator env)
                           (defaultCoefs env) (defaultK env))
                        \<lparr>processedClauseCount := processedClauseCount st + 1\<rparr>))
             else
               (if i = length words - 1
                then Inl (MyError ''missing end-of-clause indicator 0 | line '')
                else clauseLoop env catchWeight line words (i + 1) (List.insert num clause)
                       type weight st)))
      else Inr st)"
  by pat_completeness auto
termination
  by (relation "measure (\<lambda>(env, cw, line, words, i, rest). length words - i)") auto

declare clauseLoop.simps [simp del]

text \<open>A clause line: the first word starts with none of \<^verbatim>\<open>c\<close>, \<^verbatim>\<open>*\<close> and \<^verbatim>\<open>soft\<close>.\<close>

definition clauseLine :: "'n Env \<Rightarrow> 'n Parse \<Rightarrow> string \<Rightarrow> string list \<Rightarrow> error + 'n Parse" where
  "clauseLine env st line words =
     (if problemLineIndex st = MIN_INT env
      then Inl (MyError ''no problem line before clause | line '')
      else if hwcnfFlag st = 1 then
        bindE (at_vec words 0) (\<lambda>firstWord.
        bindE (bindE (substr firstWord 1 (lengthMinus2 firstWord)) (stod env)) (\<lambda>weight.
          (let words1 = tl words in
           bindE (at_vec words1 1) (\<lambda>w1.
             if starts_with w1 ''x'' then pbConstraint st words1 weight
             else clauseLoop env False line words1 0 [] (CHR ''c'') weight st))))
      else if starts_with (hd words) ''[''
      then
        bindE (at_vec words 0) (\<lambda>firstWord.
        bindE (bindE (substr firstWord 1 (lengthMinus2 firstWord)) (stod env)) (\<lambda>weight.
          pbConstraint st (tl words) weight))
      else
        bindE (at_vec words 1) (\<lambda>w1.
          if starts_with w1 ''x''
          then pbConstraint st words (real_of_int (trivialBoundPartialMaxSAT st + 1))
          else clauseLoop env (wcnfFlag st \<noteq> 0) line words 0 [] (CHR ''c'') 1 st))"

text \<open>One round of the \<^verbatim>\<open>while (getline(inputFileStream, line))\<close> loop.\<close>

definition otherLine :: "'n Env \<Rightarrow> 'n Parse \<Rightarrow> string \<Rightarrow> string list \<Rightarrow> error + 'n Parse" where
  "otherLine env st line words =
     (if hd words \<in> {''w'', ''vp'', ''c'', ''vm''} then weightOrShowLine env st words
      else if hd words \<in> {''s'', ''INDETERMINATE''}
      then Inl (MyError ''unexpected output from preprocessor pmc | line '')
      else if \<not> starts_with (hd words) ''c'' \<and> \<not> starts_with (hd words) ''*''
              \<and> \<not> starts_with (hd words) ''soft''
      then clauseLine env st line words
      else Inr st)"

definition processLine :: "'n Env \<Rightarrow> 'n Parse \<Rightarrow> string \<Rightarrow> error + 'n Parse" where
  "processLine env st0 line =
     (let st = st0\<lparr>lineIndex := lineIndex st0 + 1\<rparr>;
          words = splitInputLine line
      in if words = [] then Inr st
         else if hd words = ''p'' then problemLine env st words
         else if hd words = ''*'' then
           bindE (at_vec words 1) (\<lambda>w1.
             if w1 = ''#variable='' then wboLine st words else otherLine env st line words)
         else otherLine env st line words)"

fun parseLines :: "'n Env \<Rightarrow> 'n Parse \<Rightarrow> string list \<Rightarrow> error + 'n Parse" where
  "parseLines env st [] = Inr st"
| "parseLines env st (line # rest) =
     bindE (processLine env st line) (\<lambda>st1. parseLines env st1 rest)"

text \<open>\<^verbatim>\<open>setApparentVars\<close>.\<close>

definition setApparentVars :: "('n, 'a) Cnf_scheme \<Rightarrow> ('n, 'a) Cnf_scheme" where
  "setApparentVars cnf =
     cnf\<lparr>apparentVars := foldl (\<lambda>vars kv. List.insert (fst kv) vars) (apparentVars cnf)
                              (varToClauses cnf)\<rparr>"

text \<open>
  The completion of \<^verbatim>\<open>literalWeights\<close> under weighted counting, for the variables of
  the list in turn (\<^verbatim>\<open>for (Int var = 1; var <= declaredVarCount; var++)\<close>).
\<close>

fun completeWeights :: "'n Env \<Rightarrow> int list \<Rightarrow> (int \<rightharpoonup> 'n) \<Rightarrow> error + (int \<rightharpoonup> 'n)" where
  "completeWeights env [] lw = Inr lw"
| "completeWeights env (var # rest) lw =
     bindE (Number env ''1'') (\<lambda>one.
       if lw var = None \<and> lw (- var) = None
       then completeWeights env rest (lw(var \<mapsto> one, - var \<mapsto> one))
       else if lw var = None then
         (case lw (- var) of
            None \<Rightarrow> Inl out_of_range
          | Some w \<Rightarrow>
              if logCounting env \<and> \<not> numLessEq env w one then Inl AssertionFailure
              else completeWeights env rest (lw(var \<mapsto> numMinus env one w)))
       else if lw (- var) = None then
         (case lw var of
            None \<Rightarrow> Inl out_of_range
          | Some w \<Rightarrow>
              if logCounting env \<and> \<not> numLessEq env w one then Inl AssertionFailure
              else completeWeights env rest (lw(- var \<mapsto> numMinus env one w)))
       else completeWeights env rest lw)"

text \<open>The loop that populates \<^verbatim>\<open>literalWeights\<close> with ones without weighted counting.\<close>

fun unitWeights :: "'n Env \<Rightarrow> int list \<Rightarrow> (int \<rightharpoonup> 'n) \<Rightarrow> error + (int \<rightharpoonup> 'n)" where
  "unitWeights env [] lw = Inr lw"
| "unitWeights env (var # rest) lw =
     bindE (Number env ''1'') (\<lambda>one1.
     bindE (Number env ''1'') (\<lambda>one2.
       unitWeights env rest (lw(var \<mapsto> one1, - var \<mapsto> one2))))"

text \<open>The constructor after the loop over the lines.\<close>

definition finishCnf :: "'n Env \<Rightarrow> 'n Parse \<Rightarrow> error + 'n Parse" where
  "finishCnf env st =
     (if problemLineIndex st = MIN_INT env
      then Inl (MyError ''no problem line before cnf file ends on line '')
      else
        (let st1 = setApparentVars st;
             st2 = (if \<not> projectedCounting env \<and> \<not> maxsatSolving env
                    then st1\<lparr>additiveVars := additiveVars st1 \<union> {1 .. declaredVarCount st1}\<rparr>
                    else st1)
         in bindE ((if \<not> weightedCounting env then unitWeights env else completeWeights env)
                     [1 .. declaredVarCount st2] (literalWeights st2))
              (\<lambda>lw. Inr (st2\<lparr>literalWeights := lw\<rparr>))))"

text \<open>\<^verbatim>\<open>Cnf::Cnf(filePath)\<close> on the lines of the file.\<close>

definition initialParse :: "'n Env \<Rightarrow> 'n Parse" where
  "initialParse env =
     \<lparr>declaredVarCount = initDeclaredVarCount env, clauses = [], types = [], weights = [],
      coefLists = [], comparators = [], klist = [], literalWeights = Map.empty,
      additiveVars = {}, varToClauses = [], apparentVars = [],
      trivialBoundPartialMaxSAT = initTrivialBound env,
      declaredClauseCount = MIN_INT env, processedClauseCount = 0, lineIndex = 0,
      problemLineIndex = MIN_INT env, wcnfFlag = 0, hwcnfFlag = 0,
      minMaxsatSolving = initMinMaxsatSolving env\<rparr>"

definition parseCnf :: "'n Env \<Rightarrow> string list \<Rightarrow> error + 'n Parse" where
  "parseCnf env lines = bindE (parseLines env (initialParse env) lines) (finishCnf env)"

text \<open>
  An environment for worked examples. It runs in the rational universe
  (\<^verbatim>\<open>multiplePrecision\<close> set); the floating-point universe does not occur in the examples
  and is left unspecified. The readers of GMP, and \<^verbatim>\<open>stod\<close>, are given on the texts that
  they read without rounding, and left unspecified on every other text:
  \<^item> for \<^verbatim>\<open>mpf_class\<close> and \<^verbatim>\<open>stod\<close>, an optional minus sign and at most 15 decimal digits,
    with an optional point among them, whose value is a binary fraction (the digits after the
    point, \<open>k\<close> of them, read with the others as one number that \<open>5 ^ k\<close> divides);
  \<^item> for \<^verbatim>\<open>mpq_class\<close>, an optional minus sign, a numerator and a denominator in decimal
    digits without a leading zero, and with no common divisor.

  \<^verbatim>\<open>Number()\<close> is declared in \<^verbatim>\<open>logic.hh\<close> and taken as zero; \<^verbatim>\<open>MIN_INT\<close> is the least 64-bit
  value.
\<close>

definition decimalValue :: "string \<Rightarrow> rat option" where
  "decimalValue s =
     (let negative = (s \<noteq> [] \<and> hd s = CHR ''-'');
          body = (if negative then tl s else s);
          whole = takeWhile isDigit body;
          rest = dropWhile isDigit body;
          frac = (if rest = [] then [] else tl rest);
          n = readDigits 0 (whole @ frac)
      in if whole \<noteq> [] \<and> (rest = [] \<or> (hd rest = CHR ''.'' \<and> frac \<noteq> [] \<and> list_all isDigit frac))
            \<and> length (whole @ frac) \<le> 15 \<and> 5 ^ length frac dvd n \<and> (negative \<longrightarrow> n \<noteq> 0)
         then Some ((if negative then - 1 else 1) * of_int n / 10 ^ length frac)
         else None)"

definition fractionValue :: "string \<Rightarrow> rat option" where
  "fractionValue s =
     (let negative = (s \<noteq> [] \<and> hd s = CHR ''-'');
          body = (if negative then tl s else s);
          num = takeWhile isDigit body;
          rest = dropWhile isDigit body;
          den = (if rest = [] then [] else tl rest);
          n = readDigits 0 num;
          d = readDigits 0 den
      in if num \<noteq> [] \<and> rest \<noteq> [] \<and> hd rest = CHR ''/'' \<and> den \<noteq> [] \<and> list_all isDigit den
            \<and> (hd num \<noteq> CHR ''0'' \<or> num = ''0'') \<and> hd den \<noteq> CHR ''0'' \<and> gcd n d = 1
            \<and> (negative \<longrightarrow> n \<noteq> 0)
         then Some ((if negative then - 1 else 1) * of_int n / of_int d)
         else None)"

definition exampleLib :: "unit NumberLib" where
  "exampleLib =
     \<lparr>multiplePrecision = True,
      mpq_class = (\<lambda>s. case fractionValue s of Some q \<Rightarrow> Inr q | None \<Rightarrow> undefined),
      mpf_class = (\<lambda>s. case decimalValue s of Some q \<Rightarrow> Inr q | None \<Rightarrow> undefined),
      stold = undefined, floatDiv = undefined, floatMinus = undefined,
      floatLess = undefined, floatEq = undefined\<rparr>"

definition exampleEnv :: "bool \<Rightarrow> bool \<Rightarrow> bool \<Rightarrow> unit Number Env" where
  "exampleEnv weighted projected maxsat =
     \<lparr>weightedCounting = weighted, projectedCounting = projected, maxsatSolving = maxsat,
      logCounting = False, MIN_INT = - (2 ^ 63),
      stod = (\<lambda>s. case decimalValue s of Some q \<Rightarrow> Inr (of_rat q) | None \<Rightarrow> undefined),
      Number = Number_string exampleLib, Number0 = Quotient 0,
      numLess = Number_less exampleLib, numEq = Number_eq exampleLib,
      numMinus = Number_minus exampleLib,
      defaultComparator = 0, defaultCoefs = Map.empty, defaultK = 0,
      initDeclaredVarCount = 0, initTrivialBound = 0, initMinMaxsatSolving = False\<rparr>"

subsection \<open>class Number: log-sum-exp\<close>

text \<open>
  \<^verbatim>\<open>Float\<close> is a floating-point type of \<^verbatim>\<open>logic.hh\<close>. Its values and operations are
  parameters: the constant \<^verbatim>\<open>-INF\<close>, the comparison \<^verbatim>\<open>==\<close>, \<^verbatim>\<open>max\<close>, \<^verbatim>\<open>+\<close>, \<^verbatim>\<open>-\<close>,
  \<^verbatim>\<open>exp10l\<close> and \<^verbatim>\<open>log10l\<close>.
\<close>

record 'f FloatOps =
  NEG_INF :: 'f
  fEq :: "'f \<Rightarrow> 'f \<Rightarrow> bool"
  fMax :: "'f \<Rightarrow> 'f \<Rightarrow> 'f"
  fAdd :: "'f \<Rightarrow> 'f \<Rightarrow> 'f"
  fSub :: "'f \<Rightarrow> 'f \<Rightarrow> 'f"
  exp10l :: "'f \<Rightarrow> 'f"
  log10l :: "'f \<Rightarrow> 'f"

text \<open>
  \<^verbatim>\<open>Number::getLogSumExp\<close> on the field \<^verbatim>\<open>fraction\<close> of the two numbers; \<open>logMode\<close> is
  the global \<^verbatim>\<open>logCounting\<close> of the assertion.
\<close>

definition getLogSumExp :: "'f FloatOps \<Rightarrow> bool \<Rightarrow> 'f \<Rightarrow> 'f \<Rightarrow> error + 'f" where
  "getLogSumExp fl logMode fraction n_fraction =
     (if \<not> logMode then Inl AssertionFailure
      else if fEq fl fraction (NEG_INF fl) then Inr n_fraction
      else if fEq fl n_fraction (NEG_INF fl) then Inr fraction
      else (let m = fMax fl fraction n_fraction in
            Inr (fAdd fl (log10l fl (fAdd fl (exp10l fl (fSub fl fraction m))
                                             (exp10l fl (fSub fl n_fraction m)))) m)))"

text \<open>
  Exact arithmetic on the reals extended by \<open>-\<infinity>\<close> (\<open>None\<close>), as an instance of the
  operations for worked examples.
\<close>

definition exactFloat :: "real option FloatOps" where
  "exactFloat =
     \<lparr>NEG_INF = None,
      fEq = (=),
      fMax = (\<lambda>a b. case a of None \<Rightarrow> b | Some x \<Rightarrow> (case b of None \<Rightarrow> a | Some y \<Rightarrow> Some (max x y))),
      fAdd = (\<lambda>a b. case a of None \<Rightarrow> None | Some x \<Rightarrow> (case b of None \<Rightarrow> None | Some y \<Rightarrow> Some (x + y))),
      fSub = (\<lambda>a b. case a of None \<Rightarrow> None | Some x \<Rightarrow> (case b of None \<Rightarrow> None | Some y \<Rightarrow> Some (x - y))),
      exp10l = (\<lambda>a. case a of None \<Rightarrow> Some 0 | Some x \<Rightarrow> Some (10 powr x)),
      log10l = (\<lambda>a. case a of None \<Rightarrow> None | Some x \<Rightarrow> if x \<le> 0 then None else Some (log 10 x))\<rparr>"

text \<open>
  What the completion loop, run from the weights \<open>lw\<close>, leaves in \<open>lw'\<close> for the variable
  \<open>v\<close>, by the four cases of which sides were supplied.
\<close>

definition completed :: "'n Env \<Rightarrow> 'n \<Rightarrow> (int \<rightharpoonup> 'n) \<Rightarrow> (int \<rightharpoonup> 'n) \<Rightarrow> int \<Rightarrow> bool" where
  "completed env one lw lw' v \<longleftrightarrow>
     (case (lw v, lw (- v)) of
        (None, None) \<Rightarrow> lw' v = Some one \<and> lw' (- v) = Some one
      | (None, Some w) \<Rightarrow> lw' v = Some (numMinus env one w) \<and> lw' (- v) = Some w
      | (Some w, None) \<Rightarrow> lw' v = Some w \<and> lw' (- v) = Some (numMinus env one w)
      | (Some w, Some w') \<Rightarrow> lw' v = Some w \<and> lw' (- v) = Some w')"

subsection \<open>Graph algorithms\<close>

text \<open>
  An edge between every element of a list and every later element:
  \<^verbatim>\<open>for (auto x1 = xs.begin(); ...) for (auto x2 = next(x1); ...) addEdge(*x1, *x2)\<close>.
\<close>

fun edgesFrom :: "Graph \<Rightarrow> int \<Rightarrow> int list \<Rightarrow> error + Graph" where
  "edgesFrom g v1 [] = Inr g"
| "edgesFrom g v1 (v2 # rest) = bindE (addEdge g v1 v2) (\<lambda>g1. edgesFrom g1 v1 rest)"

fun edgesAmong :: "Graph \<Rightarrow> int list \<Rightarrow> error + Graph" where
  "edgesAmong g [] = Inr g"
| "edgesAmong g (v1 # rest) = bindE (edgesFrom g v1 rest) (\<lambda>g1. edgesAmong g1 rest)"

text \<open>
  \<^verbatim>\<open>Graph::fillInEdges\<close>. The source iterates over the neighbour set of \<open>v\<close> by
  reference while adding edges; every element that \<^verbatim>\<open>addEdge\<close> could insert into this
  set is a member already, so the set does not change under the iteration.
\<close>

definition fillInEdges :: "Graph \<Rightarrow> int \<Rightarrow> error + Graph" where
  "fillInEdges g v =
     (case map_of (adjacencyMap g) v of
        None \<Rightarrow> Inl out_of_range
      | Some neighbors \<Rightarrow> edgesAmong g neighbors)"

text \<open>\<^verbatim>\<open>Graph::countFillInEdges\<close>.\<close>

fun countFrom :: "Graph \<Rightarrow> int \<Rightarrow> int list \<Rightarrow> int \<Rightarrow> error + int" where
  "countFrom g neighbor1 [] count = Inr count"
| "countFrom g neighbor1 (neighbor2 # rest) count =
     bindE (isNeighbor g neighbor1 neighbor2) (\<lambda>b.
       countFrom g neighbor1 rest (if \<not> b then count + 1 else count))"

fun countAmong :: "Graph \<Rightarrow> int list \<Rightarrow> int \<Rightarrow> error + int" where
  "countAmong g [] count = Inr count"
| "countAmong g (neighbor1 # rest) count =
     bindE (countFrom g neighbor1 rest count) (\<lambda>c. countAmong g rest c)"

definition countFillInEdges :: "Graph \<Rightarrow> int \<Rightarrow> error + int" where
  "countFillInEdges g v =
     (case map_of (adjacencyMap g) v of
        None \<Rightarrow> Inl out_of_range
      | Some neighbors \<Rightarrow> countAmong g neighbors 0)"

text \<open>
  \<^verbatim>\<open>Graph::getMinfillVertex\<close>; \<^verbatim>\<open>MIN_INT\<close> and \<^verbatim>\<open>MAX_INT\<close> are constants of \<^verbatim>\<open>logic.hh\<close>.
\<close>

fun minfillScan :: "Graph \<Rightarrow> int list \<Rightarrow> int \<Rightarrow> int \<Rightarrow> error + int \<times> int" where
  "minfillScan g [] vertex fillInEdgeCount = Inr (vertex, fillInEdgeCount)"
| "minfillScan g (v # rest) vertex fillInEdgeCount =
     bindE (countFillInEdges g v) (\<lambda>count.
       if count < fillInEdgeCount then minfillScan g rest v count
       else minfillScan g rest vertex fillInEdgeCount)"

definition getMinfillVertex :: "int \<Rightarrow> int \<Rightarrow> Graph \<Rightarrow> error + int" where
  "getMinfillVertex MIN_INT' MAX_INT' g =
     bindE (minfillScan g (vertices g) MIN_INT' MAX_INT') (\<lambda>(vertex, fillInEdgeCount).
       if vertex = MIN_INT' then Inl (MyError ''graph has no vertex'') else Inr vertex)"

text \<open>\<^verbatim>\<open>Cnf::getPrimalGraph\<close>: the edges join the variables \<open>|l|\<close> of the literals.\<close>

fun clausesEdges :: "Graph \<Rightarrow> int list list \<Rightarrow> error + Graph" where
  "clausesEdges g [] = Inr g"
| "clausesEdges g (clause # rest) =
     bindE (edgesAmong g (map abs clause)) (\<lambda>g1. clausesEdges g1 rest)"

definition getPrimalGraph :: "('n, 'a) Cnf_scheme \<Rightarrow> error + Graph" where
  "getPrimalGraph cnf = clausesEdges (newGraph (apparentVars cnf)) (clauses cnf)"

text \<open>Well-formed graphs: what the constructor establishes and the operations keep.\<close>

definition wfGraph :: "Graph \<Rightarrow> bool" where
  "wfGraph g \<longleftrightarrow>
     distinct (vertices g) \<and> distinct (map fst (adjacencyMap g)) \<and>
     set (vertices g) = dom (map_of (adjacencyMap g)) \<and>
     (\<forall>u ns. map_of (adjacencyMap g) u = Some ns \<longrightarrow>
        distinct ns \<and> set ns \<subseteq> dom (map_of (adjacencyMap g)))"

lemma addEdge_Inr_dom:
  assumes "addEdge g a b = Inr g'"
  shows "dom (map_of (adjacencyMap g')) = dom (map_of (adjacencyMap g))"
    and "a \<in> dom (map_of (adjacencyMap g))" and "b \<in> dom (map_of (adjacencyMap g))"
    and "vertices g' = vertices g"
  using assms
  by (auto simp: addEdge_def Let_def update_conv' split: option.splits if_splits)

lemma bindE_cong [fundef_cong]:
  "r = r' \<Longrightarrow> (\<And>v. r' = Inr v \<Longrightarrow> f v = f' v) \<Longrightarrow> bindE r f = bindE r' f'"
  by (cases r') (simp_all add: bindE_def)

lemma bindE_Inr_iff: "bindE r f = Inr y \<longleftrightarrow> (\<exists>v. r = Inr v \<and> f v = Inr y)"
  by (cases r) (simp_all add: bindE_def)

lemma edgesFrom_vertices: "edgesFrom g v1 vs = Inr g' \<Longrightarrow> vertices g' = vertices g"
proof (induction vs arbitrary: g)
  case Nil
  then show ?case by simp
next
  case (Cons v2 vs)
  then obtain g1 where "addEdge g v1 v2 = Inr g1" "edgesFrom g1 v1 vs = Inr g'"
    by (auto simp: bindE_Inr_iff)
  with Cons.IH [of g1] addEdge_Inr_dom(4) [of g v1 v2 g1] show ?case by simp
qed

lemma edgesAmong_vertices: "edgesAmong g vs = Inr g' \<Longrightarrow> vertices g' = vertices g"
proof (induction vs arbitrary: g)
  case Nil
  then show ?case by simp
next
  case (Cons v1 vs)
  then obtain g1 where "edgesFrom g v1 vs = Inr g1" "edgesAmong g1 vs = Inr g'"
    by (auto simp: bindE_Inr_iff)
  with Cons.IH [of g1] edgesFrom_vertices [of g v1 vs g1] show ?case by simp
qed

lemma fillInEdges_vertices: "fillInEdges g v = Inr g' \<Longrightarrow> vertices g' = vertices g"
  by (auto simp: fillInEdges_def edgesAmong_vertices split: option.splits)

subsection \<open>class Cnf: variable orders\<close>

text \<open>
  The loops of \<^verbatim>\<open>getMinfillVarOrder\<close> and \<^verbatim>\<open>getMcsVarOrder\<close> run until the graph, or the map
  of unranked vertices, is used up. Each is defined with the facts that make it end: the
  vertex chosen is a vertex of the graph, or a key of the map, and is removed.
\<close>

lemma minfillScan_vertex:
  "minfillScan g vs vertex cnt = Inr (v', c') \<Longrightarrow> v' = vertex \<or> v' \<in> set vs"
proof (induction vs arbitrary: vertex cnt)
  case Nil
  then show ?case by simp
next
  case (Cons v vs)
  from Cons.prems obtain count where c: "countFillInEdges g v = Inr count"
    and r: "(if count < cnt then minfillScan g vs v count else minfillScan g vs vertex cnt) = Inr (v', c')"
    by (auto simp: bindE_Inr_iff)
  show ?case
  proof (cases "count < cnt")
    case True
    with r Cons.IH [of v count] show ?thesis by auto
  next
    case False
    with r Cons.IH [of vertex cnt] show ?thesis by auto
  qed
qed

lemma getMinfillVertex_member:
  "getMinfillVertex mn mx g = Inr v \<Longrightarrow> v \<in> set (vertices g)"
proof -
  assume "getMinfillVertex mn mx g = Inr v"
  then obtain v' c' where s: "minfillScan g (vertices g) mn mx = Inr (v', c')"
    and r: "(if v' = mn then Inl (MyError ''graph has no vertex'') else Inr v') = Inr v"
    by (auto simp: getMinfillVertex_def bindE_Inr_iff)
  from r have "v' \<noteq> mn" "v = v'" by (auto split: if_splits)
  with minfillScan_vertex [OF s] show ?thesis by simp
qed

text \<open>\<^verbatim>\<open>Cnf::getMinfillVarOrder\<close>: the loop \<^verbatim>\<open>while (!graph.vertices.empty())\<close>.\<close>

function minfillLoop :: "int \<Rightarrow> int \<Rightarrow> Graph \<Rightarrow> int list \<Rightarrow> error + int list" where
  "minfillLoop MIN_INT' MAX_INT' graph varOrder =
     (if vertices graph = [] then Inr varOrder
      else
        bindE (getMinfillVertex MIN_INT' MAX_INT' graph) (\<lambda>vertex.
        bindE (fillInEdges graph vertex) (\<lambda>graph1.
          minfillLoop MIN_INT' MAX_INT' (removeVertex graph1 vertex) (varOrder @ [vertex]))))"
  by pat_completeness auto

termination
proof (relation "measure (\<lambda>(mn, mx, graph, varOrder). length (vertices graph))")
  show "wf (measure (\<lambda>(mn, mx, graph, varOrder). length (vertices graph)))" by simp
next
  fix mn mx :: int and graph :: Graph and varOrder :: "int list" and vertex graph1
  assume "getMinfillVertex mn mx graph = Inr vertex" and "fillInEdges graph vertex = Inr graph1"
  then have "vertex \<in> set (vertices graph)" "vertices graph1 = vertices graph"
    by (simp_all add: getMinfillVertex_member fillInEdges_vertices)
  then have "length (removeAll vertex (vertices graph1)) < length (vertices graph)"
    by (simp add: length_removeAll_less)
  then show "((mn, mx, removeVertex graph1 vertex, varOrder @ [vertex]), (mn, mx, graph, varOrder))
      \<in> measure (\<lambda>(mn, mx, graph, varOrder). length (vertices graph))"
    by (simp add: removeVertex_def)
qed

declare minfillLoop.simps [simp del]

definition getMinfillVarOrder :: "int \<Rightarrow> int \<Rightarrow> ('n, 'a) Cnf_scheme \<Rightarrow> error + int list" where
  "getMinfillVarOrder MIN_INT' MAX_INT' cnf =
     bindE (getPrimalGraph cnf) (\<lambda>graph. minfillLoop MIN_INT' MAX_INT' graph [])"

text \<open>
  \<^verbatim>\<open>Cnf::getMcsVarOrder\<close>. The loop over the neighbours of \<^verbatim>\<open>bestVertex\<close> increments the
  count of every neighbour that has an entry in \<^verbatim>\<open>rankedNeighborCounts\<close>.
\<close>

fun bumpCounts :: "int list \<Rightarrow> (int \<times> int) list \<Rightarrow> (int \<times> int) list" where
  "bumpCounts [] counts = counts"
| "bumpCounts (n # rest) counts =
     bumpCounts rest
       (case map_of counts n of None \<Rightarrow> counts | Some c \<Rightarrow> AList.update n (c + 1) counts)"

text \<open>
  The selection loop, started with \<^verbatim>\<open>bestRankedNeighborCount = MIN_INT\<close>; the result is
  the pair of \<^verbatim>\<open>bestRankedNeighborCount\<close> and \<^verbatim>\<open>bestVertex\<close>.
\<close>

fun selectBest :: "(int \<times> int) list \<Rightarrow> int \<Rightarrow> int \<Rightarrow> int \<times> int" where
  "selectBest [] bestRankedNeighborCount bestVertex = (bestRankedNeighborCount, bestVertex)"
| "selectBest (entry # rest) bestRankedNeighborCount bestVertex =
     (if snd entry > bestRankedNeighborCount then selectBest rest (snd entry) (fst entry)
      else selectBest rest bestRankedNeighborCount bestVertex)"

lemma bumpCounts_keys: "map fst (bumpCounts ns counts) = map fst counts"
proof (induction ns arbitrary: counts)
  case Nil
  then show ?case by simp
next
  case (Cons n ns)
  show ?case
  proof (cases "map_of counts n")
    case None
    with Cons.IH [of counts] show ?thesis by simp
  next
    case (Some c)
    then have "n \<in> fst ` set counts" by (simp add: map_of_eq_Some_iff weak_map_of_SomeI image_iff)
        (metis fst_conv map_of_SomeD)
    then have "map fst (AList.update n (c + 1) counts) = map fst counts"
      by (simp add: update_keys)
    with Some Cons.IH [of "AList.update n (c + 1) counts"] show ?thesis by simp
  qed
qed

lemma selectBest_result:
  "selectBest cs b v = (b', v') \<Longrightarrow>
   b \<le> b' \<and> ((b', v') = (b, v) \<or> (v', b') \<in> set cs) \<and> ((\<exists>e\<in>set cs. b < snd e) \<longrightarrow> b < b')"
proof (induction cs arbitrary: b v)
  case Nil
  then show ?case by simp
next
  case (Cons e cs)
  show ?case
  proof (cases "snd e > b")
    case True
    with Cons.prems have "selectBest cs (snd e) (fst e) = (b', v')" by simp
    from Cons.IH [OF this] True show ?thesis by auto
  next
    case False
    with Cons.prems have "selectBest cs b v = (b', v')" by simp
    from Cons.IH [OF this] False show ?thesis by auto
  qed
qed

lemma length_delete_less:
  assumes "k \<in> fst ` set al"
  shows "length (AList.delete k al) < length al"
proof -
  from assms obtain b where "(k, b) \<in> set al" by force
  then have "length (filter (\<lambda>(k', _). k \<noteq> k') al) < length al"
    by (rule length_filter_less) simp
  then show ?thesis by (simp add: AList.delete_eq)
qed

function mcsLoop :: "int \<Rightarrow> Graph \<Rightarrow> int \<Rightarrow> (int \<times> int) list \<Rightarrow> int list \<Rightarrow> error + int list" where
  "mcsLoop MIN_INT' graph bestVertex rankedNeighborCounts varOrder =
     (case map_of (adjacencyMap graph) bestVertex of
        None \<Rightarrow> Inl out_of_range
      | Some neighbors \<Rightarrow>
          (let counts = bumpCounts neighbors (AList.delete bestVertex rankedNeighborCounts);
               best = selectBest counts MIN_INT' bestVertex
           in if fst best \<noteq> MIN_INT'
              then mcsLoop MIN_INT' graph (snd best) counts (varOrder @ [bestVertex])
              else Inr (varOrder @ [bestVertex])))"
  by pat_completeness auto

termination
proof (relation "measure (\<lambda>(mn, graph, bestVertex, counts, varOrder).
          length (AList.delete bestVertex counts))")
  show "wf (measure (\<lambda>(mn, graph, bestVertex, counts, varOrder).
          length (AList.delete bestVertex counts)))" by simp
next
  fix mn :: int and graph :: Graph and bestVertex :: int and rankedNeighborCounts :: "(int \<times> int) list"
    and varOrder :: "int list" and neighbors counts best
  assume c: "counts = bumpCounts neighbors (AList.delete bestVertex rankedNeighborCounts)"
    and b: "best = selectBest counts mn bestVertex" and ne: "fst best \<noteq> mn"
  from b have "selectBest counts mn bestVertex = (fst best, snd best)" by simp
  from selectBest_result [OF this] ne have "(snd best, fst best) \<in> set counts" by auto
  then have "snd best \<in> fst ` set counts" by force
  then have "length (AList.delete (snd best) counts) < length counts"
    by (rule length_delete_less)
  also have "length counts = length (AList.delete bestVertex rankedNeighborCounts)"
    using arg_cong [OF bumpCounts_keys [of neighbors "AList.delete bestVertex rankedNeighborCounts"],
        of length] c by simp
  finally show "((mn, graph, snd best, counts, varOrder @ [bestVertex]),
        (mn, graph, bestVertex, rankedNeighborCounts, varOrder))
      \<in> measure (\<lambda>(mn, graph, bestVertex, counts, varOrder). length (AList.delete bestVertex counts))"
    by simp
qed

declare mcsLoop.simps [simp del]

definition getMcsVarOrder :: "int \<Rightarrow> ('n, 'a) Cnf_scheme \<Rightarrow> error + int list" where
  "getMcsVarOrder MIN_INT' cnf =
     bindE (getPrimalGraph cnf) (\<lambda>graph.
       case vertices graph of
         [] \<Rightarrow> Inr []
       | startVertex # rest \<Rightarrow>
           mcsLoop MIN_INT' graph startVertex (foldl (\<lambda>m v. AList.update v 0 m) [] rest) [])"

subsection \<open>class Label and the lexicographic searches\<close>

text \<open>
  A \<^verbatim>\<open>Label\<close> is a vector of numbers. \<^verbatim>\<open>addNumber\<close> appends and sorts in descending
  order; vectors compare lexicographically (\<^verbatim>\<open>operator<\<close> of \<^verbatim>\<open>std::vector\<close>).
\<close>

definition addNumber :: "int list \<Rightarrow> int \<Rightarrow> int list" where
  "addNumber label i = rev (sort (label @ [i]))"

fun vecLess :: "int list \<Rightarrow> int list \<Rightarrow> bool" where
  "vecLess [] [] = False"
| "vecLess [] (y # ys) = True"
| "vecLess (x # xs) [] = False"
| "vecLess (x # xs) (y # ys) = (x < y \<or> (\<not> y < x \<and> vecLess xs ys))"

definition hasSmallerLabel :: "int \<times> int list \<Rightarrow> int \<times> int list \<Rightarrow> bool" where
  "hasSmallerLabel a b = vecLess (snd a) (snd b)"

text \<open>
  \<^verbatim>\<open>max_element(begin, end, hasSmallerLabel)\<close>: the first of the greatest entries, and
  the \<^verbatim>\<open>end()\<close> iterator (\<open>None\<close>) on an empty range.
\<close>

fun maxElementFrom :: "int \<times> int list \<Rightarrow> (int \<times> int list) list \<Rightarrow> int \<times> int list" where
  "maxElementFrom largest [] = largest"
| "maxElementFrom largest (e # rest) =
     (if hasSmallerLabel largest e then maxElementFrom e rest else maxElementFrom largest rest)"

definition max_element :: "(int \<times> int list) list \<Rightarrow> (int \<times> int list) option" where
  "max_element entries = (case entries of [] \<Rightarrow> None | e # rest \<Rightarrow> Some (maxElementFrom e rest))"

text \<open>The initial map \<^verbatim>\<open>unnumberedVertices\<close>: the empty label for every apparent variable.\<close>

definition emptyLabels :: "int list \<Rightarrow> (int \<times> int list) list" where
  "emptyLabels vars = foldl (\<lambda>m vertex. AList.update vertex [] m) [] vars"

text \<open>\<^verbatim>\<open>Cnf::getLexpVarOrder\<close>: the loop over the neighbours of the chosen vertex.\<close>

fun labelNeighbors :: "int list \<Rightarrow> int \<Rightarrow> (int \<times> int list) list \<Rightarrow> (int \<times> int list) list" where
  "labelNeighbors [] number unnumbered = unnumbered"
| "labelNeighbors (neighbor # rest) number unnumbered =
     labelNeighbors rest number
       (case map_of unnumbered neighbor of
          None \<Rightarrow> unnumbered
        | Some label \<Rightarrow> AList.update neighbor (addNumber label number) unnumbered)"

text \<open>The loop \<^verbatim>\<open>for (Int number = apparentVars.size(); number > 0; number--)\<close>.\<close>

fun lexpLoop :: "Graph \<Rightarrow> nat \<Rightarrow> (int \<times> int list) list \<Rightarrow> int list \<Rightarrow> error + int list" where
  "lexpLoop graph 0 unnumberedVertices numberedVertices = Inr numberedVertices"
| "lexpLoop graph (Suc k) unnumberedVertices numberedVertices =
     (case max_element unnumberedVertices of
        None \<Rightarrow> Inl end_dereferenced
      | Some e \<Rightarrow>
          (let vertex = fst e in
           case map_of (adjacencyMap graph) vertex of
             None \<Rightarrow> Inl out_of_range
           | Some neighbors \<Rightarrow>
               lexpLoop graph k
                 (labelNeighbors neighbors (int (Suc k)) (AList.delete vertex unnumberedVertices))
                 (numberedVertices @ [vertex])))"

definition getLexpVarOrder :: "('n, 'a) Cnf_scheme \<Rightarrow> error + int list" where
  "getLexpVarOrder cnf =
     bindE (getPrimalGraph cnf) (\<lambda>graph.
       lexpLoop graph (length (apparentVars cnf)) (emptyLabels (apparentVars cnf)) [])"

text \<open>
  \<^verbatim>\<open>Cnf::getLexmVarOrder\<close>. The inner loop visits the entries of \<^verbatim>\<open>unnumberedVertices\<close> by
  reference, in the order of their keys \<open>ws\<close>; the subgraph is shared by all its rounds,
  and a label changed in one round is the label that later rounds compare.
\<close>

definition removeNumbered :: "Graph \<Rightarrow> int \<Rightarrow> int list \<Rightarrow> Graph" where
  "removeNumbered subgraph v numberedVertices =
     foldl (\<lambda>g numberedVertex. if numberedVertex \<noteq> v then removeVertex g numberedVertex else g)
       subgraph numberedVertices"

definition removeLarger :: "Graph \<Rightarrow> int \<Rightarrow> int list \<Rightarrow> (int \<times> int list) list \<Rightarrow> Graph" where
  "removeLarger subgraph w wLabel unnumberedVertices =
     foldl (\<lambda>g kv. if fst kv \<noteq> w \<and> \<not> vecLess (snd kv) wLabel then removeVertex g (fst kv) else g)
       subgraph unnumberedVertices"

fun lexmLabels ::
  "int \<Rightarrow> int \<Rightarrow> int list \<Rightarrow> int list \<Rightarrow> Graph \<Rightarrow> (int \<times> int list) list \<Rightarrow>
   (error + (int \<times> int list) list) option" where
  "lexmLabels v i numberedVertices [] subgraph unnumberedVertices = Some (Inr unnumberedVertices)"
| "lexmLabels v i numberedVertices (w # ws) subgraph unnumberedVertices =
     (case map_of unnumberedVertices w of
        None \<Rightarrow> Some (Inl out_of_range)
      | Some wLabel \<Rightarrow>
          (let subgraph1 = removeNumbered subgraph v numberedVertices;
               subgraph2 = removeLarger subgraph1 w wLabel unnumberedVertices
           in case hasPath subgraph2 v w of
                None \<Rightarrow> None
              | Some (Inl e) \<Rightarrow> Some (Inl e)
              | Some (Inr found) \<Rightarrow>
                  lexmLabels v i numberedVertices ws subgraph2
                    (if found then AList.update w (addNumber wLabel i) unnumberedVertices
                     else unnumberedVertices)))"

fun lexmLoop ::
  "('n, 'a) Cnf_scheme \<Rightarrow> nat \<Rightarrow> (int \<times> int list) list \<Rightarrow> int list \<Rightarrow> (error + int list) option" where
  "lexmLoop cnf 0 unnumberedVertices numberedVertices = Some (Inr numberedVertices)"
| "lexmLoop cnf (Suc k) unnumberedVertices numberedVertices =
     (case max_element unnumberedVertices of
        None \<Rightarrow> Some (Inl end_dereferenced)
      | Some e \<Rightarrow>
          (let v = fst e;
               numbered = numberedVertices @ [v];
               unnumbered = AList.delete v unnumberedVertices
           in case getPrimalGraph cnf of
                Inl err \<Rightarrow> Some (Inl err)
              | Inr subgraph \<Rightarrow>
                  (case lexmLabels v (int (Suc k)) numbered (map fst unnumbered) subgraph unnumbered of
                     None \<Rightarrow> None
                   | Some (Inl err) \<Rightarrow> Some (Inl err)
                   | Some (Inr unnumbered1) \<Rightarrow> lexmLoop cnf k unnumbered1 numbered)))"

definition getLexmVarOrder :: "('n, 'a) Cnf_scheme \<Rightarrow> (error + int list) option" where
  "getLexmVarOrder cnf =
     (case getPrimalGraph cnf of
        Inl err \<Rightarrow> Some (Inl err)
      | Inr graph \<Rightarrow> lexmLoop cnf (length (apparentVars cnf)) (emptyLabels (apparentVars cnf)) [])"

text \<open>
  \<^verbatim>\<open>Cnf::getRandomVarOrder\<close>, \<^verbatim>\<open>getDeclaredVarOrder\<close> and \<^verbatim>\<open>getMostClausesVarOrder\<close>.
  \<^verbatim>\<open>std::shuffle\<close> with a generator seeded by \<^verbatim>\<open>randomSeed\<close> is a parameter. The multimap
  keeps its entries in descending order of the key, and an entry inserted with a key
  already present goes behind the entries of that key.
\<close>

definition getRandomVarOrder :: "(int \<Rightarrow> int list \<Rightarrow> int list) \<Rightarrow> int \<Rightarrow> ('n, 'a) Cnf_scheme \<Rightarrow> int list" where
  "getRandomVarOrder shuffle randomSeed cnf = shuffle randomSeed (apparentVars cnf)"

definition getDeclaredVarOrder :: "('n, 'a) Cnf_scheme \<Rightarrow> int list" where
  "getDeclaredVarOrder cnf =
     filter (\<lambda>var. var \<in> set (apparentVars cnf)) [1 .. declaredVarCount cnf]"

fun multimapInsert :: "int \<times> int \<Rightarrow> (int \<times> int) list \<Rightarrow> (int \<times> int) list" where
  "multimapInsert kv [] = [kv]"
| "multimapInsert kv (e # rest) =
     (if fst kv > fst e then kv # e # rest else e # multimapInsert kv rest)"

definition getMostClausesVarOrder :: "('n, 'a) Cnf_scheme \<Rightarrow> int list" where
  "getMostClausesVarOrder cnf =
     map snd (foldl (\<lambda>m varAndSet. multimapInsert (int (length (snd varAndSet)), fst varAndSet) m)
                [] (varToClauses cnf))"

text \<open>
  \<^verbatim>\<open>Cnf::getCnfVarOrder\<close>. The heuristic codes and \<^verbatim>\<open>MAX_INT\<close> are constants of
  \<^verbatim>\<open>logic.hh\<close>; \<^verbatim>\<open>randomSeed\<close> is a global. \<open>None\<close> stands for a call that does not
  return.
\<close>

record 'n OrderEnv = "'n Env" +
  MAX_INT :: int
  RANDOM :: int
  DECLARED :: int
  MOST_CLAUSES :: int
  MINFILL :: int
  MCS :: int
  LEXP :: int
  LEXM :: int
  randomSeed :: int
  shuffle :: "int \<Rightarrow> int list \<Rightarrow> int list"

definition heuristicOrder :: "'n OrderEnv \<Rightarrow> ('n, 'a) Cnf_scheme \<Rightarrow> int \<Rightarrow> (error + int list) option" where
  "heuristicOrder env cnf code =
     (if code = RANDOM env then Some (Inr (getRandomVarOrder (shuffle env) (randomSeed env) cnf))
      else if code = DECLARED env then Some (Inr (getDeclaredVarOrder cnf))
      else if code = MOST_CLAUSES env then Some (Inr (getMostClausesVarOrder cnf))
      else if code = MINFILL env then Some (getMinfillVarOrder (MIN_INT env) (MAX_INT env) cnf)
      else if code = MCS env then Some (getMcsVarOrder (MIN_INT env) cnf)
      else if code = LEXP env then Some (getLexpVarOrder cnf)
      else if code = LEXM env then getLexmVarOrder cnf
      else Some (Inl AssertionFailure))"

definition getCnfVarOrder :: "'n OrderEnv \<Rightarrow> ('n, 'a) Cnf_scheme \<Rightarrow> int \<Rightarrow> (error + int list) option" where
  "getCnfVarOrder env cnf cnfVarOrderHeuristic =
     map_option (map_sum id (\<lambda>varOrder. if cnfVarOrderHeuristic < 0 then rev varOrder else varOrder))
       (heuristicOrder env cnf \<bar>cnfVarOrderHeuristic\<bar>)"

text \<open>
  What holds of the formula under construction after every line: \<^verbatim>\<open>apparentVars\<close> is still
  empty, and \<^verbatim>\<open>varToClauses\<close> has one entry for every variable of the clauses.
\<close>

definition parseInvariant :: "('n, 'a) Cnf_scheme \<Rightarrow> bool" where
  "parseInvariant cnf \<longleftrightarrow>
     apparentVars cnf = [] \<and> distinct (map fst (varToClauses cnf)) \<and>
     (\<forall>c\<in>set (clauses cnf). \<forall>l\<in>set c. \<bar>l\<bar> \<in> fst ` set (varToClauses cnf))"

text \<open>
  What the constructor establishes and the heuristics rely on: \<^verbatim>\<open>apparentVars\<close> holds the
  keys of \<^verbatim>\<open>varToClauses\<close>, each once, and they are the variables of the clauses.
\<close>

definition cnfInvariant :: "('n, 'a) Cnf_scheme \<Rightarrow> bool" where
  "cnfInvariant cnf \<longleftrightarrow>
     distinct (apparentVars cnf) \<and> distinct (map fst (varToClauses cnf)) \<and>
     set (apparentVars cnf) = fst ` set (varToClauses cnf) \<and>
     (\<forall>c\<in>set (clauses cnf). \<forall>l\<in>set c. \<bar>l\<bar> \<in> set (apparentVars cnf))"

text \<open>
  An environment for worked examples of the variable orders: the codes, which
  \<^verbatim>\<open>logic.hh\<close> defines, numbered in the order of the \<^verbatim>\<open>switch\<close>, \<^verbatim>\<open>MAX_INT\<close> the greatest
  64-bit value, and a shuffle that reverses.
\<close>

definition exampleOrderEnv :: "unit Number OrderEnv" where
  "exampleOrderEnv =
     Env.extend (exampleEnv False False False)
       \<lparr>MAX_INT = 2 ^ 63 - 1, RANDOM = 1, DECLARED = 2, MOST_CLAUSES = 3, MINFILL = 4, MCS = 5,
        LEXP = 6, LEXM = 7, randomSeed = 0, shuffle = (\<lambda>seed xs. rev xs)\<rparr>"


section \<open>Properties\<close>

subsection \<open>Assignment extension\<close>

lemma length_extendLoop: "length (extendLoop as v) = 2 * length as"
  by (induction as) simp_all

lemma extendLoop_nth:
  "j < 2 * length as \<Longrightarrow> extendLoop as v ! j = (as ! (j div 2))(v \<mapsto> odd j)"
proof (induction as arbitrary: j)
  case Nil
  then show ?case by simp
next
  case (Cons a as)
  show ?case
  proof (cases j)
    case 0
    then show ?thesis by simp
  next
    case (Suc j1)
    show ?thesis
    proof (cases j1)
      case 0
      with Suc show ?thesis by simp
    next
      case (Suc j2)
      with Cons.prems \<open>j = Suc j1\<close> have "j2 < 2 * length as" by simp
      from Cons.IH [OF this] Suc \<open>j = Suc j1\<close> show ?thesis by simp
    qed
  qed
qed

text \<open>
  Claim C7. For every list \<open>A\<close> of partial assignments and every variable \<open>v\<close>,
  \<open>extendAssignments A v\<close> has exactly \<open>max 2 (2 * |A|)\<close> elements, and the element at
  position \<open>j\<close> is the input at position \<open>j div 2\<close> (the empty assignment when \<open>A\<close> is
  empty) with \<open>v\<close> bound to \<open>false\<close> when \<open>j\<close> is even and to \<open>true\<close> when \<open>j\<close> is odd:
  input \<open>i\<close> yields its \<open>false\<close>-extension at position \<open>2i\<close>, immediately followed by
  its \<open>true\<close>-extension at position \<open>2i + 1\<close>.
\<close>

theorem extendAssignments_stable:
  "length (extendAssignments A v) = max 2 (2 * length A) \<and>
   (A = [] \<longrightarrow> extendAssignments A v = [Map.empty(v \<mapsto> False), Map.empty(v \<mapsto> True)]) \<and>
   (\<forall>i < length A.
      extendAssignments A v ! (2 * i) = (A ! i)(v \<mapsto> False) \<and>
      extendAssignments A v ! (2 * i + 1) = (A ! i)(v \<mapsto> True))"
proof -
  have len: "length (extendAssignments A v) = max 2 (2 * length A)"
    by (cases A) (simp_all add: extendAssignments_def length_extendLoop)
  have emp: "A = [] \<longrightarrow> extendAssignments A v = [Map.empty(v \<mapsto> False), Map.empty(v \<mapsto> True)]"
    by (simp add: extendAssignments_def Assignment1_def)
  have pos: "extendAssignments A v ! (2 * i) = (A ! i)(v \<mapsto> False) \<and>
             extendAssignments A v ! (2 * i + 1) = (A ! i)(v \<mapsto> True)"
    if "i < length A" for i
  proof -
    from that have ne: "A \<noteq> []" by auto
    from that have "2 * i < 2 * length A" "2 * i + 1 < 2 * length A" by simp_all
    from extendLoop_nth [OF this(1), of v] extendLoop_nth [OF this(2), of v] ne
    show ?thesis by (simp add: extendAssignments_def)
  qed
  from len emp pos show ?thesis by blast
qed

theorem extendAssignments_stable_witness:
  "length (extendAssignments [Map.empty(1 \<mapsto> True)] 2) = 2 \<and>
   extendAssignments [Map.empty(1 \<mapsto> True)] 2 ! 0 = [1 \<mapsto> True, 2 \<mapsto> False] \<and>
   extendAssignments [Map.empty(1 \<mapsto> True)] 2 ! 1 = [1 \<mapsto> True, 2 \<mapsto> True] \<and>
   extendAssignments [] 7 = [[7 \<mapsto> False], [7 \<mapsto> True]]"
  using extendAssignments_stable [of "[Map.empty(1 \<mapsto> True)]" 2]
    extendAssignments_stable [of "[]" 7]
  by simp

subsection \<open>Cluster choice\<close>

lemma scanClusters_range:
  "0 \<le> t \<Longrightarrow> t \<le> int (length sets) \<Longrightarrow>
   t \<le> scanClusters post sets t \<and> scanClusters post sets t \<le> int (length sets)"
proof (induction post sets t rule: scanClusters.induct)
  case (1 post sets t)
  note eq = scanClusters.simps [of post sets t]
  show ?case
  proof (cases "t < int (length sets)")
    case False
    with "1.prems" eq show ?thesis by simp
  next
    case True
    show ?thesis
    proof (cases "isDisjoint post (sets ! nat t)")
      case False
      with True "1.prems" eq show ?thesis by simp
    next
      case d: True
      from True "1.prems" have g: "0 \<le> t \<and> t < int (length sets)" by simp
      from d have nn: "\<not> \<not> isDisjoint post (sets ! nat t)" by simp
      from True "1.prems" have p: "0 \<le> t + 1" "t + 1 \<le> int (length sets)" by simp_all
      from "1.IH" [OF g nn p]
      have "t + 1 \<le> scanClusters post sets (t + 1) \<and>
            scanClusters post sets (t + 1) \<le> int (length sets)" .
      with True d "1.prems" eq show ?thesis by simp
    qed
  qed
qed

lemma scanClusters_hit:
  "0 \<le> t \<Longrightarrow> scanClusters post sets t < int (length sets) \<Longrightarrow>
   \<not> isDisjoint post (sets ! nat (scanClusters post sets t))"
proof (induction post sets t rule: scanClusters.induct)
  case (1 post sets t)
  note eq = scanClusters.simps [of post sets t]
  show ?case
  proof (cases "t < int (length sets)")
    case False
    with "1.prems" eq show ?thesis by simp
  next
    case True
    show ?thesis
    proof (cases "isDisjoint post (sets ! nat t)")
      case False
      with True "1.prems" eq show ?thesis by simp
    next
      case d: True
      from True "1.prems" have g: "0 \<le> t \<and> t < int (length sets)" by simp
      from d have nn: "\<not> \<not> isDisjoint post (sets ! nat t)" by simp
      from d True "1.prems" eq
      have e: "scanClusters post sets t = scanClusters post sets (t + 1)" by simp
      from "1.prems" have p: "0 \<le> t + 1" by simp
      from "1.prems" e have q: "scanClusters post sets (t + 1) < int (length sets)" by simp
      from "1.IH" [OF g nn p q] e show ?thesis by simp
    qed
  qed
qed

lemma scanClusters_skipped:
  "0 \<le> t \<Longrightarrow> t \<le> j \<Longrightarrow> j < scanClusters post sets t \<Longrightarrow>
   isDisjoint post (sets ! nat j)"
proof (induction post sets t rule: scanClusters.induct)
  case (1 post sets t)
  note eq = scanClusters.simps [of post sets t]
  have tl: "t < int (length sets)"
  proof (rule ccontr)
    assume "\<not> t < int (length sets)"
    with eq have "scanClusters post sets t = int (length sets)" by simp
    with "1.prems" \<open>\<not> t < int (length sets)\<close> show False by simp
  qed
  show ?case
  proof (cases "isDisjoint post (sets ! nat t)")
    case False
    with tl "1.prems" eq show ?thesis by simp
  next
    case d: True
    from tl "1.prems" have g: "0 \<le> t \<and> t < int (length sets)" by simp
    from d have nn: "\<not> \<not> isDisjoint post (sets ! nat t)" by simp
    from d tl "1.prems" eq
    have e: "scanClusters post sets t = scanClusters post sets (t + 1)" by simp
    show ?thesis
    proof (cases "j = t")
      case True
      with d show ?thesis by simp
    next
      case False
      with "1.prems" have a: "t + 1 \<le> j" by simp
      from "1.prems" have p: "0 \<le> t + 1" by simp
      from "1.prems" e have q: "j < scanClusters post sets (t + 1)" by simp
      from "1.IH" [OF g nn p a q] show ?thesis .
    qed
  qed
qed

text \<open>
  Claim C6. Outside \<open>0 \<le> currentIndex < |projectableVarSets|\<close> the call fails with
  \<open>MyError\<close>. Inside the range it returns the sentinel \<open>|projectableVarSets|\<close> when the
  node's \<open>postProjectionVars\<close> is disjoint from the union of the sets; otherwise, under
  \<open>BUCKET_LIST\<close> or \<open>BOUQUET_LIST\<close>, it returns \<open>currentIndex + 1\<close>; and otherwise (any
  other heuristic name, so the two tree heuristics) it returns a \<open>target\<close> above
  \<open>currentIndex\<close> such that every index strictly between is disjoint from
  \<open>postProjectionVars\<close> and \<open>target\<close> is either an index whose set intersects
  \<open>postProjectionVars\<close> or, when there is none, the sentinel.
\<close>

theorem chooseClusterIndex_spec:
  "(i < 0 \<or> int (length sets) \<le> i \<longrightarrow> (\<exists>m. chooseClusterIndex BL BQ post i sets h = Inl (MyError m)))
    \<and> (0 \<le> i \<and> i < int (length sets) \<longrightarrow>
         (post \<inter> \<Union> (set sets) = {} \<longrightarrow> chooseClusterIndex BL BQ post i sets h = Inr (int (length sets)))
       \<and> (post \<inter> \<Union> (set sets) \<noteq> {} \<and> (h = BL \<or> h = BQ) \<longrightarrow> chooseClusterIndex BL BQ post i sets h = Inr (i + 1))
       \<and> (post \<inter> \<Union> (set sets) \<noteq> {} \<and> h \<noteq> BL \<and> h \<noteq> BQ \<longrightarrow>
            (\<exists>target. chooseClusterIndex BL BQ post i sets h = Inr target \<and> i < target \<and> target \<le> int (length sets)
               \<and> (\<forall>j. i < j \<and> j < target \<longrightarrow> post \<inter> sets ! nat j = {})
               \<and> (target < int (length sets) \<longrightarrow> post \<inter> sets ! nat target \<noteq> {}))))"
proof -
  let ?r = "chooseClusterIndex BL BQ post i sets h"
  have disj: "isDisjoint (getUnion sets) post \<longleftrightarrow> post \<inter> \<Union> (set sets) = {}"
    by (auto simp: isDisjoint_def getUnion_def)
  have out: "i < 0 \<or> int (length sets) \<le> i \<longrightarrow> (\<exists>m. ?r = Inl (MyError m))"
    by (auto simp: chooseClusterIndex_def)
  have tree: "\<exists>target. ?r = Inr target \<and> i < target \<and> target \<le> int (length sets)
               \<and> (\<forall>j. i < j \<and> j < target \<longrightarrow> post \<inter> sets ! nat j = {})
               \<and> (target < int (length sets) \<longrightarrow> post \<inter> sets ! nat target \<noteq> {})"
    if rng: "0 \<le> i" "i < int (length sets)" and nd: "post \<inter> \<Union> (set sets) \<noteq> {}"
      and hh: "h \<noteq> BL" "h \<noteq> BQ"
  proof -
    let ?t = "scanClusters post sets (i + 1)"
    from rng nd hh disj have r: "?r = Inr ?t"
      by (simp add: chooseClusterIndex_def)
    from rng have p: "0 \<le> i + 1" "i + 1 \<le> int (length sets)" by simp_all
    from scanClusters_range [OF p, of post] have b: "i < ?t" "?t \<le> int (length sets)"
      by simp_all
    have sk: "\<forall>j. i < j \<and> j < ?t \<longrightarrow> post \<inter> sets ! nat j = {}"
    proof (intro allI impI)
      fix j assume "i < j \<and> j < ?t"
      then have "i + 1 \<le> j" "j < ?t" by simp_all
      from scanClusters_skipped [OF p(1) this] show "post \<inter> sets ! nat j = {}"
        by (simp add: isDisjoint_def)
    qed
    have hit: "?t < int (length sets) \<longrightarrow> post \<inter> sets ! nat ?t \<noteq> {}"
      using scanClusters_hit [OF p(1), of post sets] by (simp add: isDisjoint_def)
    from r b sk hit show ?thesis by blast
  qed
  have inr: "0 \<le> i \<and> i < int (length sets) \<longrightarrow>
         (post \<inter> \<Union> (set sets) = {} \<longrightarrow> ?r = Inr (int (length sets)))
       \<and> (post \<inter> \<Union> (set sets) \<noteq> {} \<and> (h = BL \<or> h = BQ) \<longrightarrow> ?r = Inr (i + 1))"
    using disj by (auto simp: chooseClusterIndex_def)
  from out inr tree show ?thesis by blast
qed

theorem chooseClusterIndex_spec_witness:
  "chooseClusterIndex ''bl'' ''bq'' {5} 0 [{1}, {2}, {5}, {5}] ''bt'' = Inr 2
   \<and> chooseClusterIndex ''bl'' ''bq'' {5} 0 [{1}, {2}, {5}, {5}] ''bl'' = Inr 1
   \<and> chooseClusterIndex ''bl'' ''bq'' {7} 0 [{1}, {2}, {5}, {5}] ''bt'' = Inr 4
   \<and> chooseClusterIndex ''bl'' ''bq'' {5} 2 [{1}, {5}, {2}] ''bt'' = Inr 3
   \<and> (\<exists>m. chooseClusterIndex ''bl'' ''bq'' {5} 4 [{1}, {2}, {5}, {5}] ''bt'' = Inl (MyError m))"
proof -
  have a: "chooseClusterIndex ''bl'' ''bq'' {5} 0 [{1}, {2}, {5}, {5}] ''bt'' = Inr 2"
  proof -
    from chooseClusterIndex_spec [where i = 0 and sets = "[{1}, {2}, {5}, {5}]" and post = "{5}"
        and h = "''bt''" and BL = "''bl''" and BQ = "''bq''"]
    obtain t where t: "chooseClusterIndex ''bl'' ''bq'' {5} 0 [{1}, {2}, {5}, {5}] ''bt'' = Inr t"
      "0 < t" "t \<le> 4" "\<forall>j. 0 < j \<and> j < t \<longrightarrow> {5} \<inter> [{1}, {2}, {5}, {5::int}] ! nat j = {}"
      "t < 4 \<longrightarrow> {5} \<inter> [{1}, {2}, {5}, {5::int}] ! nat t \<noteq> {}"
      by auto
    have "t \<noteq> 1" using t(5) by auto
    moreover have "t \<noteq> 3" using t(4) [rule_format, of 2] by auto
    moreover have "t \<noteq> 4" using t(4) [rule_format, of 2] by auto
    ultimately have "t = 2" using t(2,3) by arith
    with t(1) show ?thesis by simp
  qed
  have b: "chooseClusterIndex ''bl'' ''bq'' {5} 0 [{1}, {2}, {5}, {5}] ''bl'' = Inr 1"
    using chooseClusterIndex_spec [where i = 0 and sets = "[{1}, {2}, {5}, {5}]" and post = "{5}"
        and h = "''bl''" and BL = "''bl''" and BQ = "''bq''"]
    by simp
  have c: "chooseClusterIndex ''bl'' ''bq'' {7} 0 [{1}, {2}, {5}, {5}] ''bt'' = Inr 4"
    using chooseClusterIndex_spec [where i = 0 and sets = "[{1}, {2}, {5}, {5}]" and post = "{7}"
        and h = "''bt''" and BL = "''bl''" and BQ = "''bq''"]
    by simp
  have d: "chooseClusterIndex ''bl'' ''bq'' {5} 2 [{1}, {5}, {2}] ''bt'' = Inr 3"
  proof -
    from chooseClusterIndex_spec [where i = 2 and sets = "[{1}, {5}, {2}]" and post = "{5}"
        and h = "''bt''" and BL = "''bl''" and BQ = "''bq''"]
    obtain t where t: "chooseClusterIndex ''bl'' ''bq'' {5} 2 [{1}, {5}, {2}] ''bt'' = Inr t"
      "2 < t" "t \<le> 3"
      by auto
    then show ?thesis by simp
  qed
  have e: "\<exists>m. chooseClusterIndex ''bl'' ''bq'' {5} 4 [{1}, {2}, {5}, {5}] ''bt'' = Inl (MyError m)"
    using chooseClusterIndex_spec [where i = 4 and sets = "[{1}, {2}, {5}, {5}]" and post = "{5}"
        and h = "''bt''" and BL = "''bl''" and BQ = "''bq''"]
    by simp
  from a b c d e show ?thesis by blast
qed

subsection \<open>Slice assignments\<close>

lemma length_extendAssignments: "length (extendAssignments as v) = max 2 (2 * length as)"
  by (cases as) (simp_all add: extendAssignments_def length_extendLoop)

lemma sliceLoop_nonempty:
  "as \<noteq> [] \<Longrightarrow> a \<le> k \<Longrightarrow>
   length (sliceLoop vs A k a as) =
     length as * 2 ^ min (nat (k - a)) (length (filter (\<lambda>v. v \<in> A) vs))"
proof (induction vs arbitrary: a as)
  case Nil
  then show ?case by simp
next
  case (Cons v vs)
  show ?case
  proof (cases "a < k")
    case False
    with Cons.prems show ?thesis by simp
  next
    case lt: True
    show ?thesis
    proof (cases "v \<in> A")
      case False
      with lt Cons show ?thesis by simp
    next
      case True
      from Cons.prems have ne: "extendAssignments as v \<noteq> []"
        by (cases as) (simp_all add: extendAssignments_def)
      from lt have le: "a + 1 \<le> k" by simp
      from lt have n: "nat (k - a) = Suc (nat (k - (a + 1)))" by simp
      from Cons.prems have l: "length (extendAssignments as v) = 2 * length as"
        by (cases as) (simp_all add: length_extendAssignments)
      from Cons.IH [OF ne le] True lt l show ?thesis
        by (simp add: n)
    qed
  qed
qed

lemma sliceLoop_no_additive:
  "filter (\<lambda>v. v \<in> A) vs = [] \<Longrightarrow> sliceLoop vs A k a as = as"
  by (induction vs) (simp_all split: if_splits)

lemma sliceLoop_empty:
  "a < k \<Longrightarrow> filter (\<lambda>v. v \<in> A) vs \<noteq> [] \<Longrightarrow>
   length (sliceLoop vs A k a []) = 2 ^ min (nat (k - a)) (length (filter (\<lambda>v. v \<in> A) vs))"
proof (induction vs)
  case Nil
  then show ?case by simp
next
  case (Cons v vs)
  show ?case
  proof (cases "v \<in> A")
    case False
    with Cons show ?thesis by simp
  next
    case True
    have ne: "extendAssignments [] v \<noteq> []" by (simp add: extendAssignments_def)
    from Cons.prems have le: "a + 1 \<le> k" by simp
    from Cons.prems have n: "nat (k - a) = Suc (nat (k - (a + 1)))" by simp
    have l: "length (extendAssignments [] v) = 2" by (simp add: extendAssignments_def)
    from sliceLoop_nonempty [OF ne le, of vs A] True Cons.prems l show ?thesis
      by (simp add: n)
  qed
qed

lemma getAdditiveAssignments_length:
  "0 < k \<Longrightarrow> filter (\<lambda>v. v \<in> A) (getVarOrder h) \<noteq> [] \<Longrightarrow>
   length (getAdditiveAssignments getVarOrder A h k) =
     2 ^ min (nat k) (length (filter (\<lambda>v. v \<in> A) (getVarOrder h)))"
  using sliceLoop_empty [of 0 k A "getVarOrder h"]
  by (simp add: getAdditiveAssignments_def)

lemma getAdditiveAssignments_nonpositive:
  "k \<le> 0 \<Longrightarrow> getAdditiveAssignments getVarOrder A h k = [Map.empty]"
  by (simp add: getAdditiveAssignments_def)

lemma getAdditiveAssignments_no_additive:
  "0 < k \<Longrightarrow> filter (\<lambda>v. v \<in> A) (getVarOrder h) = [] \<Longrightarrow>
   getAdditiveAssignments getVarOrder A h k = []"
  using sliceLoop_no_additive [of A "getVarOrder h" k 0 "[]"]
  by (simp add: getAdditiveAssignments_def)

text \<open>
  Claim C5. With \<open>k \<le> 0\<close> the result is the single empty assignment, and with \<open>k > 0\<close>
  and at least one additive variable in the order it has \<open>2 ^ min k m\<close> elements
  (lemmas \<open>getAdditiveAssignments_nonpositive\<close> and \<open>getAdditiveAssignments_length\<close>). With \<open>k > 0\<close>
  and no additive variable in the order (\<open>m = 0\<close>) the claim promises \<open>2 ^ 0 = 1\<close>
  assignment, as the path for \<open>k \<le> 0\<close> returns; the loop starts from the empty list
  and returns it unchanged: here the order is \<open>[3]\<close>, the additive variables are
  \<open>{1, 2}\<close> and \<open>k = 1\<close>.
\<close>

theorem getAdditiveAssignments_returns_no_slice:
  "getAdditiveAssignments (\<lambda>h. [3]) {1, 2} 1 1 = []
   \<and> length (getAdditiveAssignments (\<lambda>h. [3]) {1, 2} 1 1)
       \<noteq> 2 ^ min (nat 1) (length (filter (\<lambda>v. v \<in> {1, 2}) [3 :: int]))
   \<and> getAdditiveAssignments (\<lambda>h. [3]) {1, 2} 1 0 = [Map.empty]"
  by (simp add: getAdditiveAssignments_def)

subsection \<open>Graph invariants\<close>

lemma isNeighbor_True:
  "isNeighbor g u x = Inr True \<longleftrightarrow> (\<exists>n. map_of (adjacencyMap g) u = Some n \<and> x \<in> set n)"
  by (auto simp: isNeighbor_def split: option.splits)

lemma addEdge_Inr_adj:
  assumes "addEdge g a b = Inr g'"
  shows "isNeighbor g' u x = Inr True \<longleftrightarrow>
         isNeighbor g u x = Inr True \<or> (u = a \<and> x = b) \<or> (u = b \<and> x = a)"
  using assms
  by (auto simp: isNeighbor_True addEdge_def Let_def update_conv' split: option.splits if_splits)

lemma map_of_removeVertex:
  "map_of (adjacencyMap (removeVertex g v)) u =
     (if u = v then None else map_option (removeAll v) (map_of (adjacencyMap g) u))"
proof -
  have "map_of (map (\<lambda>(u, ns). (u, removeAll v ns)) al) u = map_option (removeAll v) (map_of al u)"
    for al :: "(int \<times> int list) list"
    by (induction al) auto
  then show ?thesis
    by (simp add: removeVertex_def delete_conv')
qed

lemma removeVertex_adj:
  "isNeighbor (removeVertex g v) u x = Inr True \<longleftrightarrow>
   isNeighbor g u x = Inr True \<and> u \<noteq> v \<and> x \<noteq> v"
  by (auto simp: isNeighbor_True map_of_removeVertex)

lemma removeVertex_dom:
  "dom (map_of (adjacencyMap (removeVertex g v))) = dom (map_of (adjacencyMap g)) - {v}"
  by (auto simp: map_of_removeVertex dom_def)

lemma removeVertex_vertices: "set (vertices (removeVertex g v)) = set (vertices g) - {v}"
  by (auto simp: removeVertex_def)

lemma callSeq_invariants:
  assumes "callSeq g cs = Inr g'" and "symmetricAdj g"
  shows "symmetricAdj g'
    \<and> (\<forall>v. isNeighbor g' v v = Inr True \<longrightarrow> isNeighbor g v v = Inr True \<or> AddEdge v v \<in> set cs)
    \<and> (\<forall>r. RemoveVertex r \<in> set cs \<longrightarrow>
          r \<notin> dom (map_of (adjacencyMap g')) \<and> r \<notin> set (vertices g'))
    \<and> dom (map_of (adjacencyMap g')) \<subseteq> dom (map_of (adjacencyMap g))
    \<and> set (vertices g') \<subseteq> set (vertices g)"
  using assms
proof (induction cs arbitrary: g)
  case Nil
  then show ?case by simp
next
  case (Cons c cs)
  show ?case
  proof (cases c)
    case (AddEdge a b)
    with Cons.prems obtain g1 where g1: "addEdge g a b = Inr g1" "callSeq g1 cs = Inr g'"
      by (auto split: sum.splits)
    have sym1: "symmetricAdj g1"
      using Cons.prems(2) by (auto simp: symmetricAdj_def addEdge_Inr_adj [OF g1(1)])
    note ih = Cons.IH [OF g1(2) sym1]
    have loops: "\<forall>v. isNeighbor g' v v = Inr True \<longrightarrow>
        isNeighbor g v v = Inr True \<or> AddEdge v v \<in> set (c # cs)"
      using ih AddEdge by (auto simp: addEdge_Inr_adj [OF g1(1)])
    have rem: "\<forall>r. RemoveVertex r \<in> set (c # cs) \<longrightarrow>
          r \<notin> dom (map_of (adjacencyMap g')) \<and> r \<notin> set (vertices g')"
      using ih AddEdge by auto
    have sub: "dom (map_of (adjacencyMap g')) \<subseteq> dom (map_of (adjacencyMap g))"
      "set (vertices g') \<subseteq> set (vertices g)"
      using ih addEdge_Inr_dom(1) [OF g1(1)] addEdge_Inr_dom(4) [OF g1(1)] by auto
    from ih loops rem sub show ?thesis by blast
  next
    case (RemoveVertex v)
    with Cons.prems have g1: "callSeq (removeVertex g v) cs = Inr g'" by simp
    have sym1: "symmetricAdj (removeVertex g v)"
      using Cons.prems(2) by (auto simp: symmetricAdj_def removeVertex_adj)
    note ih = Cons.IH [OF g1 sym1]
    have loops: "\<forall>u. isNeighbor g' u u = Inr True \<longrightarrow>
        isNeighbor g u u = Inr True \<or> AddEdge u u \<in> set (c # cs)"
      using ih by (auto simp: removeVertex_adj)
    have rem: "\<forall>r. RemoveVertex r \<in> set (c # cs) \<longrightarrow>
          r \<notin> dom (map_of (adjacencyMap g')) \<and> r \<notin> set (vertices g')"
      using ih RemoveVertex removeVertex_dom [of g v] removeVertex_vertices [of g v] by auto
    have sub: "dom (map_of (adjacencyMap g')) \<subseteq> dom (map_of (adjacencyMap g))"
      "set (vertices g') \<subseteq> set (vertices g)"
      using ih removeVertex_dom [of g v] removeVertex_vertices [of g v] by auto
    from ih loops rem sub show ?thesis by blast
  qed
qed

lemma newGraph_fold_no_edges:
  "\<forall>u n. map_of (adjacencyMap g) u = Some n \<longrightarrow> n = [] \<Longrightarrow>
   map_of (adjacencyMap (foldl (\<lambda>g v. \<lparr>vertices = List.insert v (vertices g),
         adjacencyMap = AList.update v [] (adjacencyMap g)\<rparr>) g vs)) u = Some n \<Longrightarrow> n = []"
proof (induction vs arbitrary: g)
  case Nil
  then show ?case by simp
next
  case (Cons a vs)
  let ?g1 = "\<lparr>vertices = List.insert a (vertices g),
         adjacencyMap = AList.update a [] (adjacencyMap g)\<rparr>"
  from Cons.prems(1) have "\<forall>u n. map_of (adjacencyMap ?g1) u = Some n \<longrightarrow> n = []"
    by (simp add: update_conv')
  from Cons.IH [OF this] Cons.prems(2) show ?case by simp
qed

lemma newGraph_no_edges: "isNeighbor (newGraph vs) u x \<noteq> Inr True"
  using newGraph_fold_no_edges [of emptyGraph vs u]
  by (auto simp: isNeighbor_True newGraph_def emptyGraph_def)

lemma hasPath_same: "hasPath g v v = Some (Inr True)"
  by (simp add: hasPath_def)

text \<open>
  Claim C8 (amended). After any run of \<open>addEdge\<close> and \<open>removeVertex\<close> calls that raises
  no exception, on a graph constructed from a vertex set: \<open>isNeighbor u v\<close> returns true
  iff \<open>isNeighbor v u\<close> does; \<open>isNeighbor v v\<close> returns true only if the run contains
  the call \<open>addEdge v v\<close>; a removed vertex is no vertex, no key of the adjacency map and
  in no neighbour set; and \<open>hasPath v v\<close> returns true for every \<open>v\<close>.
\<close>

theorem graph_invariants:
  assumes "callSeq (newGraph vs) cs = Inr g"
  shows "(\<forall>u v. isNeighbor g u v = Inr True \<longleftrightarrow> isNeighbor g v u = Inr True)
    \<and> (\<forall>v. isNeighbor g v v = Inr True \<longrightarrow> AddEdge v v \<in> set cs)
    \<and> (\<forall>r. RemoveVertex r \<in> set cs \<longrightarrow>
          r \<notin> set (vertices g) \<and> map_of (adjacencyMap g) r = None \<and>
          (\<forall>u. isNeighbor g u r \<noteq> Inr True))
    \<and> (\<forall>v. hasPath g v v = Some (Inr True))"
proof -
  have s0: "symmetricAdj (newGraph vs)"
    by (simp add: symmetricAdj_def newGraph_no_edges)
  note inv = callSeq_invariants [OF assms s0]
  from inv have sym: "\<forall>u v. isNeighbor g u v = Inr True \<longleftrightarrow> isNeighbor g v u = Inr True"
    unfolding symmetricAdj_def by blast
  from inv have loops: "\<forall>v. isNeighbor g v v = Inr True \<longrightarrow> AddEdge v v \<in> set cs"
    by (simp add: newGraph_no_edges)
  have rem: "\<forall>r. RemoveVertex r \<in> set cs \<longrightarrow>
          r \<notin> set (vertices g) \<and> map_of (adjacencyMap g) r = None \<and>
          (\<forall>u. isNeighbor g u r \<noteq> Inr True)"
  proof (intro allI impI)
    fix r assume "RemoveVertex r \<in> set cs"
    with inv have a: "r \<notin> dom (map_of (adjacencyMap g))" "r \<notin> set (vertices g)" by blast+
    then have b: "map_of (adjacencyMap g) r = None" by (simp add: dom_def)
    then have "isNeighbor g r u \<noteq> Inr True" for u by (simp add: isNeighbor_def)
    with sym have "\<forall>u. isNeighbor g u r \<noteq> Inr True" by blast
    with a b show "r \<notin> set (vertices g) \<and> map_of (adjacencyMap g) r = None \<and>
          (\<forall>u. isNeighbor g u r \<noteq> Inr True)" by blast
  qed
  from sym loops rem hasPath_same show ?thesis by blast
qed

text \<open>
  The claim as stated excludes self-loops; \<open>addEdge\<close> has no guard against equal
  arguments, and \<open>addEdge 1 1\<close> on the graph of the vertex set \<open>{1}\<close> makes \<open>1\<close> its own
  neighbour.
\<close>

theorem graph_self_loop:
  "callSeq (newGraph [1]) [AddEdge 1 1] = Inr \<lparr>vertices = [1], adjacencyMap = [(1, [1])]\<rparr>
   \<and> isNeighbor \<lparr>vertices = [1], adjacencyMap = [(1, [1])]\<rparr> 1 1 = Inr True"
  by (simp add: newGraph_def emptyGraph_def addEdge_def isNeighbor_def)

theorem graph_invariants_witness:
  "callSeq (newGraph [1, 2, 3]) [AddEdge 1 2, AddEdge 2 3, RemoveVertex 2, AddEdge 1 1]
     = Inr \<lparr>vertices = [3, 1], adjacencyMap = [(1, [1]), (3, [])]\<rparr>
   \<and> isNeighbor \<lparr>vertices = [3, 1], adjacencyMap = [(1, [1]), (3, [])]\<rparr> 1 3 = Inr False
   \<and> isNeighbor \<lparr>vertices = [3, 1], adjacencyMap = [(1, [1]), (3, [])]\<rparr> 3 1 = Inr False
   \<and> map_of (adjacencyMap \<lparr>vertices = [3, 1], adjacencyMap = [(1, [1]), (3, [])]\<rparr>) 2 = None
   \<and> hasPath \<lparr>vertices = [3, 1], adjacencyMap = [(1, [1]), (3, [])]\<rparr> 3 3 = Some (Inr True)"
proof -
  have run: "callSeq (newGraph [1, 2, 3]) [AddEdge 1 2, AddEdge 2 3, RemoveVertex 2, AddEdge 1 1]
     = Inr \<lparr>vertices = [3, 1], adjacencyMap = [(1, [1]), (3, [])]\<rparr>"
    by (simp add: newGraph_def emptyGraph_def addEdge_def removeVertex_def)
  from graph_invariants [OF run] show ?thesis
    using run by (simp add: isNeighbor_def)
qed

subsection \<open>PB canonicalization\<close>

lemma int32_id: "- (2 ^ 31) \<le> x \<Longrightarrow> x < 2 ^ 31 \<Longrightarrow> int32 x = x"
  by (simp add: int32_def)

lemma valueAt_touch [simp]: "valueAt (touch m k) l = valueAt m l"
  by (simp add: valueAt_def touch_def split: option.splits)

lemma valueAt_touch_fun [simp]: "valueAt (touch m k) = valueAt m"
  by (rule ext) simp

lemma touch_other: "l \<noteq> k \<Longrightarrow> touch m k l = m l"
  by (simp add: touch_def split: option.splits)

lemma touch_same: "touch m k k = Some (valueAt m k)"
  by (simp add: touch_def valueAt_def split: option.splits)

lemma touch_touch [simp]: "touch (touch m k) k = touch m k"
  by (simp add: touch_def split: option.splits)

lemma negateLoop_apply:
  assumes "distinct vs" and "\<forall>v\<in>set vs. - (2 ^ 31) \<le> v \<and> v < 2 ^ 31"
  shows "negateLoop vs coefs l = (if l \<in> set vs then Some (- valueAt coefs l) else coefs l)"
  using assms
proof (induction vs arbitrary: coefs)
  case Nil
  then show ?case by simp
next
  case (Cons x vs)
  from Cons.prems have x: "int32 x = x" by (simp add: int32_id)
  let ?c1 = "(touch coefs x)(x \<mapsto> valueAt coefs x * (- 1))"
  from Cons.prems have d: "distinct vs" "\<forall>v\<in>set vs. - (2 ^ 31) \<le> v \<and> v < 2 ^ 31" "x \<notin> set vs"
    by simp_all
  have step: "negateLoop (x # vs) coefs l = negateLoop vs ?c1 l"
    by (simp add: x Let_def)
  have "negateLoop vs ?c1 l = (if l \<in> set vs then Some (- valueAt ?c1 l) else ?c1 l)"
    by (rule Cons.IH [OF d(1,2)])
  moreover have "l \<in> set vs \<Longrightarrow> valueAt ?c1 l = valueAt coefs l"
    using d(3) by (auto simp: valueAt_def touch_other)
  moreover have "l \<notin> set vs \<Longrightarrow> l \<noteq> x \<Longrightarrow> ?c1 l = coefs l"
    by (simp add: touch_other)
  ultimately show ?case using step by auto
qed

lemma flipLoop_result:
  assumes "distinct vs" and "\<forall>v\<in>set vs. 0 < v \<and> v < 2 ^ 31"
    and "\<forall>v\<in>set vs. coefs (- v) = None"
    and "\<bar>k\<bar> + (\<Sum>v\<leftarrow>vs. \<bar>valueAt coefs v\<bar>) < 2 ^ 31"
  shows "flipLoop vs coefs tempVar k =
    ((\<lambda>l. if l \<in> set vs then (if valueAt coefs l < 0 then None else Some (valueAt coefs l))
          else if - l \<in> set vs \<and> valueAt coefs (- l) < 0 then Some (- valueAt coefs (- l))
          else coefs l),
     tempVar @ map uminus (filter (\<lambda>v. valueAt coefs v < 0) vs),
     k - (\<Sum>v\<leftarrow>filter (\<lambda>v. valueAt coefs v < 0) vs. valueAt coefs v))"
  using assms
proof (induction vs arbitrary: coefs tempVar k)
  case Nil
  then show ?case by simp
next
  case (Cons x vs)
  let ?c = "valueAt coefs x"
  from Cons.prems have xr: "0 < x" "x < 2 ^ 31" and xn: "x \<notin> set vs" and dv: "distinct vs"
    and rv: "\<forall>v\<in>set vs. 0 < v \<and> v < 2 ^ 31" and nn: "\<forall>v\<in>set vs. coefs (- v) = None"
    and nx: "coefs (- x) = None"
    by simp_all
  from xr have x: "int32 x = x" "int32 (- x) = - x" by (simp_all add: int32_id)
  have sum0: "0 \<le> (\<Sum>v\<leftarrow>vs. \<bar>valueAt coefs v\<bar>)" by (rule sum_list_nonneg) auto
  from Cons.prems(4) have bnd: "\<bar>k\<bar> + \<bar>?c\<bar> + (\<Sum>v\<leftarrow>vs. \<bar>valueAt coefs v\<bar>) < 2 ^ 31" by simp
  show ?case
  proof (cases "?c < 0")
    case False
    let ?c1 = "touch coefs x"
    have step: "flipLoop (x # vs) coefs tempVar k = flipLoop vs ?c1 tempVar k"
      using False by (simp add: x Let_def)
    have p3: "\<forall>v\<in>set vs. ?c1 (- v) = None"
      using nn xr rv by (auto simp: touch_other)
    have p4: "\<bar>k\<bar> + (\<Sum>v\<leftarrow>vs. \<bar>valueAt ?c1 v\<bar>) < 2 ^ 31"
      using bnd by simp
    have fn: "(\<lambda>l. if l \<in> set vs then (if valueAt ?c1 l < 0 then None else Some (valueAt ?c1 l))
          else if - l \<in> set vs \<and> valueAt ?c1 (- l) < 0 then Some (- valueAt ?c1 (- l))
          else ?c1 l) =
       (\<lambda>l. if l \<in> set (x # vs) then (if valueAt coefs l < 0 then None else Some (valueAt coefs l))
          else if - l \<in> set (x # vs) \<and> valueAt coefs (- l) < 0 then Some (- valueAt coefs (- l))
          else coefs l)"
      using False xr rv xn by (auto simp: fun_eq_iff touch_same touch_other)
    show ?thesis
      unfolding step Cons.IH [OF dv rv p3 p4] fn using False by simp
  next
    case True
    let ?c4 = "((touch coefs x)(- x \<mapsto> - ?c))(x := None)"
    from bnd sum0 have cb: "\<bar>?c\<bar> < 2 ^ 31" "\<bar>k - ?c\<bar> < 2 ^ 31" by linarith+
    then have i1: "int32 (- ?c) = - ?c" "int32 (k - ?c) = k - ?c"
      by (simp_all add: int32_id)
    from xr nx have t1: "touch coefs x (- x) = None" by (simp add: touch_other)
    have step: "flipLoop (x # vs) coefs tempVar k = flipLoop vs ?c4 (tempVar @ [- x]) (k - ?c)"
      using True xr by (simp add: x Let_def t1 i1 valueAt_def [of "_(_ \<mapsto> _)"] touch_def [of "_(_ \<mapsto> _)"] touch_same)
    have same: "valueAt ?c4 v = valueAt coefs v" if "v \<in> set vs" for v
    proof -
      from that rv have "0 < v" by blast
      with xr have "v \<noteq> - x" by simp
      moreover from that xn have "v \<noteq> x" by blast
      ultimately show ?thesis by (simp add: valueAt_def touch_other)
    qed
    have p3: "\<forall>v\<in>set vs. ?c4 (- v) = None"
    proof
      fix v assume v: "v \<in> set vs"
      with rv have "0 < v" by blast
      with xr have "- v \<noteq> x" by simp
      moreover from v xn have "- v \<noteq> - x" by auto
      ultimately show "?c4 (- v) = None" using nn v by (simp add: touch_other)
    qed
    have "(\<Sum>v\<leftarrow>vs. \<bar>valueAt ?c4 v\<bar>) = (\<Sum>v\<leftarrow>vs. \<bar>valueAt coefs v\<bar>)"
      by (rule arg_cong [where f = sum_list], rule map_cong) (simp_all add: same)
    with bnd have p4: "\<bar>k - ?c\<bar> + (\<Sum>v\<leftarrow>vs. \<bar>valueAt ?c4 v\<bar>) < 2 ^ 31"
      by linarith
    have flt: "filter (\<lambda>v. valueAt ?c4 v < 0) vs = filter (\<lambda>v. valueAt coefs v < 0) vs"
      by (rule filter_cong) (simp_all add: same)
    have sm: "(\<Sum>v\<leftarrow>filter (\<lambda>v. valueAt coefs v < 0) vs. valueAt ?c4 v) =
              (\<Sum>v\<leftarrow>filter (\<lambda>v. valueAt coefs v < 0) vs. valueAt coefs v)"
      by (rule arg_cong [where f = sum_list], rule map_cong) (simp_all add: same)
    have fn: "(\<lambda>l. if l \<in> set vs then (if valueAt ?c4 l < 0 then None else Some (valueAt ?c4 l))
          else if - l \<in> set vs \<and> valueAt ?c4 (- l) < 0 then Some (- valueAt ?c4 (- l))
          else ?c4 l) =
       (\<lambda>l. if l \<in> set (x # vs) then (if valueAt coefs l < 0 then None else Some (valueAt coefs l))
          else if - l \<in> set (x # vs) \<and> valueAt coefs (- l) < 0 then Some (- valueAt coefs (- l))
          else coefs l)"
    proof (rule ext)
      fix l
      show "(if l \<in> set vs then (if valueAt ?c4 l < 0 then None else Some (valueAt ?c4 l))
          else if - l \<in> set vs \<and> valueAt ?c4 (- l) < 0 then Some (- valueAt ?c4 (- l))
          else ?c4 l) =
        (if l \<in> set (x # vs) then (if valueAt coefs l < 0 then None else Some (valueAt coefs l))
          else if - l \<in> set (x # vs) \<and> valueAt coefs (- l) < 0 then Some (- valueAt coefs (- l))
          else coefs l)"
      proof (cases "l \<in> set vs")
        case True
        with same [OF True] xn show ?thesis by auto
      next
        case lv: False
        show ?thesis
        proof (cases "- l \<in> set vs")
          case True
          with same [OF True] lv xn rv xr show ?thesis by (auto simp: touch_other)
        next
          case False
          with lv True xr show ?thesis by (auto simp: touch_other)
        qed
      qed
    qed
    show ?thesis
      unfolding step Cons.IH [OF dv rv p3 p4] fn flt sm using True by simp
  qed
qed

lemma moveLoop_distinct: "distinct cl \<Longrightarrow> distinct (moveLoop ts cl)"
  by (induction ts arbitrary: cl) (simp_all add: distinct_removeAll)

lemma moveLoop_set:
  "\<forall>t\<in>set ts. t < 0 \<Longrightarrow> set (moveLoop ts cl) = (set cl - uminus ` set ts) \<union> set ts"
proof (induction ts arbitrary: cl)
  case Nil
  then show ?case by simp
next
  case (Cons t ts)
  from Cons.prems have neg: "t < 0" "\<forall>u\<in>set ts. u < 0" by simp_all
  from neg have a: "t \<notin> uminus ` set ts" by force
  from neg have b: "t \<noteq> - t" by simp
  have "set (moveLoop (t # ts) cl) = (set (removeAll (- t) (List.insert t cl)) - uminus ` set ts) \<union> set ts"
    using Cons.IH [OF neg(2)] by simp
  also have "\<dots> = (set cl - uminus ` set (t # ts)) \<union> set (t # ts)"
    using a b by auto
  finally show ?case .
qed

lemma pbSum_set:
  "distinct cl \<Longrightarrow>
   pbSum \<sigma> cl coefs = (\<Sum>l\<in>set cl. valueAt coefs l * (if literalHolds \<sigma> l then 1 else 0))"
  by (simp add: pbSum_def sum_list_distinct_conv_sum_set)

lemma flipped_sum:
  fixes c :: "int \<Rightarrow> int"
  assumes fin: "finite V" and pos: "\<forall>v\<in>V. 0 < v"
    and N: "N = {v \<in> V. c v < 0}"
    and c': "\<forall>v\<in>V - N. c' v = c v" "\<forall>v\<in>N. c' (- v) = - c v"
  shows "(\<Sum>l\<in>(V - N) \<union> uminus ` N. c' l * (if literalHolds \<sigma> l then 1 else 0))
       = (\<Sum>v\<in>V. c v * (if literalHolds \<sigma> v then 1 else 0)) - (\<Sum>v\<in>N. c v)"
proof -
  let ?f = "\<lambda>l. c' l * (if literalHolds \<sigma> l then 1 else 0)"
  let ?g = "\<lambda>v. c v * (if literalHolds \<sigma> v then 1 else 0)"
  from N fin have fN: "finite N" and NV: "N \<subseteq> V" by auto
  have disj: "(V - N) \<inter> uminus ` N = {}"
  proof (rule ccontr)
    assume "(V - N) \<inter> uminus ` N \<noteq> {}"
    then obtain l v where "l \<in> V" "v \<in> N" "l = - v" by blast
    with pos NV have "0 < l" "0 < v" "l = - v" by auto
    then show False by simp
  qed
  have inj: "inj_on uminus N" by (simp add: inj_on_def)
  have "sum ?f ((V - N) \<union> uminus ` N) = sum ?f (V - N) + sum ?f (uminus ` N)"
    using fin fN disj by (simp add: sum.union_disjoint)
  also have "sum ?f (uminus ` N) = (\<Sum>v\<in>N. ?f (- v))"
    using inj by (simp add: sum.reindex)
  also have "(\<Sum>v\<in>N. ?f (- v)) = (\<Sum>v\<in>N. ?g v - c v)"
  proof (rule sum.cong)
    fix v assume v: "v \<in> N"
    with N pos have "0 < v" by auto
    then show "?f (- v) = ?g v - c v"
      using c'(2) v by (simp add: literalHolds_def)
  qed simp
  also have "\<dots> = sum ?g N - sum c N" by (simp add: sum_subtractf)
  also have "sum ?f (V - N) = sum ?g (V - N)"
    by (rule sum.cong) (simp_all add: c'(1))
  also have "sum ?g (V - N) + (sum ?g N - sum c N) = sum ?g V - sum c N"
    using sum.subset_diff [OF NV fin, of ?g] by simp
  finally show ?thesis .
qed

lemma PB_canonicalize_analysis:
  assumes dist: "distinct clause"
    and rng: "\<forall>v\<in>set clause. 0 < v \<and> v < 2 ^ 31"
    and dom: "dom coefs = set clause"
    and bnd: "\<bar>k\<bar> + (\<Sum>v\<leftarrow>clause. \<bar>valueAt coefs v\<bar>) < 2 ^ 31"
    and res: "PB_canonicalize clause coefs k comparator = (clause', coefs', k', comparator')"
  shows "comparator' = (if comparator = 3 then 1 else comparator)"
    and "distinct clause'"
    and "dom coefs' = set clause'"
    and "coefs' l = Some a \<Longrightarrow> 0 < a \<or> (a = 0 \<and> coefs l = Some 0)"
    and "pbSum \<sigma> clause' coefs' - k' =
          (if comparator = 3 then - (pbSum \<sigma> clause coefs - k) else pbSum \<sigma> clause coefs - k)"
proof -
  define coefs1 where "coefs1 = (if comparator = 3 then negateLoop clause coefs else coefs)"
  define k1 where "k1 = (if comparator = 3 then - k else k)"
  define c where "c = valueAt coefs1"
  define negs where "negs = filter (\<lambda>v. c v < 0) clause"
  define V where "V = set clause"
  define N where "N = {v \<in> V. c v < 0}"
  have sum0: "0 \<le> (\<Sum>v\<leftarrow>clause. \<bar>valueAt coefs v\<bar>)" by (rule sum_list_nonneg) auto
  with bnd have kb: "\<bar>k\<bar> < 2 ^ 31" by linarith
  then have nk: "int32 (- k) = - k" by (simp add: int32_id)
  from rng have rng': "\<forall>v\<in>set clause. - (2 ^ 31) \<le> v \<and> v < 2 ^ 31" by auto
  have c1_in: "coefs1 v = Some (c v) \<and> c v = (if comparator = 3 then - valueAt coefs v else valueAt coefs v)"
    if "v \<in> set clause" for v
  proof -
    from that dom obtain y where "coefs v = Some y" by auto
    then show ?thesis
      using that by (simp add: c_def coefs1_def negateLoop_apply [OF dist rng'] valueAt_def)
  qed
  have c1_out: "coefs1 l = None" if "l \<notin> set clause" for l
  proof -
    from that dom have "coefs l = None" by auto
    then show ?thesis
      using that by (simp add: coefs1_def negateLoop_apply [OF dist rng'])
  qed
  have p3: "\<forall>v\<in>set clause. coefs1 (- v) = None"
  proof
    fix v assume v: "v \<in> set clause"
    have "- v \<notin> set clause"
    proof
      assume "- v \<in> set clause"
      with rng v have "0 < - v" "0 < v" by blast+
      then show False by simp
    qed
    then show "coefs1 (- v) = None" by (rule c1_out)
  qed
  have "(\<Sum>v\<leftarrow>clause. \<bar>valueAt coefs1 v\<bar>) = (\<Sum>v\<leftarrow>clause. \<bar>valueAt coefs v\<bar>)"
    by (rule arg_cong [where f = sum_list], rule map_cong) (use c1_in in \<open>auto simp: c_def\<close>)
  with bnd have p4: "\<bar>k1\<bar> + (\<Sum>v\<leftarrow>clause. \<bar>valueAt coefs1 v\<bar>) < 2 ^ 31"
    by (simp add: k1_def)
  note fl = flipLoop_result [OF dist rng p3 p4, of "[]", folded c_def negs_def]
  have first: "(if comparator = 3 then (1, int32 (- k), negateLoop clause coefs)
             else (comparator, k, coefs)) = (if comparator = 3 then 1 else comparator, k1, coefs1)"
    by (simp add: k1_def coefs1_def nk)
  from res have r: "clause' = moveLoop (map uminus negs) clause"
    "coefs' = (\<lambda>l. if l \<in> set clause then (if c l < 0 then None else Some (c l))
          else if - l \<in> set clause \<and> c (- l) < 0 then Some (- c (- l))
          else coefs1 l)"
    "k' = k1 - (\<Sum>v\<leftarrow>negs. c v)"
    "comparator' = (if comparator = 3 then 1 else comparator)"
    unfolding PB_canonicalize_def first by (auto simp: fl Let_def negs_def)
  show "comparator' = (if comparator = 3 then 1 else comparator)" by (rule r(4))
  show d': "distinct clause'" unfolding r(1) by (rule moveLoop_distinct [OF dist])
  have tneg: "\<forall>t\<in>set (map uminus negs). t < 0"
    using rng by (auto simp: negs_def)
  have "uminus ` set (map uminus negs) = set negs" by (force simp: image_iff)
  with moveLoop_set [OF tneg, of clause]
  have s': "set clause' = (V - N) \<union> uminus ` N"
    by (auto simp: r(1) V_def N_def negs_def)
  have posV: "\<forall>v\<in>V. 0 < v" using rng by (simp add: V_def)
  have notV: "- v \<notin> V" if "v \<in> V" for v
  proof
    assume "- v \<in> V"
    with posV that have "0 < - v" "0 < v" by blast+
    then show False by simp
  qed
  show "dom coefs' = set clause'"
  proof (rule set_eqI)
    fix l
    show "l \<in> dom coefs' \<longleftrightarrow> l \<in> set clause'"
    proof (cases "l \<in> V")
      case True
      with notV [OF True] have "l \<notin> uminus ` N" by (auto simp: N_def)
      with True show ?thesis by (auto simp: r(2) s' N_def V_def dom_def)
    next
      case False
      then have "coefs1 l = None" by (simp add: c1_out V_def)
      with False show ?thesis
        by (auto simp: r(2) s' N_def V_def dom_def image_iff)
    qed
  qed
  show "0 < a \<or> (a = 0 \<and> coefs l = Some 0)" if a: "coefs' l = Some a"
  proof (cases "l \<in> V")
    case True
    with a have ca: "\<not> c l < 0" "a = c l"
      by (auto simp: r(2) V_def split: if_splits)
    from True dom obtain y where y: "coefs l = Some y" by (auto simp: V_def)
    from c1_in [of l] True y have "c l = (if comparator = 3 then - y else y)"
      by (simp add: V_def valueAt_def)
    with ca y show ?thesis by (auto split: if_splits)
  next
    case False
    then have "coefs1 l = None" by (simp add: c1_out V_def)
    with a False show ?thesis
      by (auto simp: r(2) V_def split: if_splits)
  qed
  have finV: "finite V" by (simp add: V_def)
  have c'1: "\<forall>v\<in>V - N. valueAt coefs' v = c v"
    by (auto simp: r(2) V_def N_def valueAt_def)
  have c'2: "\<forall>v\<in>N. valueAt coefs' (- v) = - c v"
  proof
    fix v assume v: "v \<in> N"
    then have "v \<in> V" "c v < 0" by (simp_all add: N_def)
    with notV [of v] show "valueAt coefs' (- v) = - c v"
      by (simp add: r(2) V_def valueAt_def)
  qed
  have dn: "distinct negs" using dist by (simp add: negs_def)
  have sn: "set negs = N" by (auto simp: negs_def N_def V_def)
  have "pbSum \<sigma> clause' coefs' =
        (\<Sum>l\<in>(V - N) \<union> uminus ` N. valueAt coefs' l * (if literalHolds \<sigma> l then 1 else 0))"
    by (simp add: pbSum_set [OF d'] s')
  also have "\<dots> = (\<Sum>v\<in>V. c v * (if literalHolds \<sigma> v then 1 else 0)) - (\<Sum>v\<in>N. c v)"
    by (rule flipped_sum [OF finV posV N_def c'1 c'2])
  also have "(\<Sum>v\<in>N. c v) = (\<Sum>v\<leftarrow>negs. c v)"
    using dn sn by (simp add: sum_list_distinct_conv_sum_set)
  finally have new: "pbSum \<sigma> clause' coefs' - k' =
      (\<Sum>v\<in>V. c v * (if literalHolds \<sigma> v then 1 else 0)) - k1"
    by (simp add: r(3))
  have old: "(\<Sum>v\<in>V. c v * (if literalHolds \<sigma> v then 1 else 0)) =
      (if comparator = 3 then - pbSum \<sigma> clause coefs else pbSum \<sigma> clause coefs)"
  proof (cases "comparator = 3")
    case True
    have "(\<Sum>v\<in>V. c v * (if literalHolds \<sigma> v then 1 else 0)) =
          (\<Sum>v\<in>V. - (valueAt coefs v * (if literalHolds \<sigma> v then 1 else 0)))"
      by (rule sum.cong) (use c1_in True in \<open>auto simp: V_def\<close>)
    also have "\<dots> = - pbSum \<sigma> clause coefs"
      by (simp add: pbSum_set [OF dist] V_def sum_negf)
    finally show ?thesis using True by simp
  next
    case False
    have "(\<Sum>v\<in>V. c v * (if literalHolds \<sigma> v then 1 else 0)) =
          (\<Sum>v\<in>V. valueAt coefs v * (if literalHolds \<sigma> v then 1 else 0))"
      by (rule sum.cong) (use c1_in False in \<open>auto simp: V_def\<close>)
    also have "\<dots> = pbSum \<sigma> clause coefs"
      by (simp add: pbSum_set [OF dist] V_def)
    finally show ?thesis using False by simp
  qed
  show "pbSum \<sigma> clause' coefs' - k' =
          (if comparator = 3 then - (pbSum \<sigma> clause coefs - k) else pbSum \<sigma> clause coefs - k)"
    unfolding new old by (simp add: k1_def)
qed

text \<open>
  Claim C1 (amended). Let a PB constraint be given by a clause of distinct positive
  variable ids below \<open>2^31\<close>, a coefficient map on exactly these variables, a comparator
  code among \<open>1\<close> (\<open>\<ge>\<close>), \<open>2\<close> (\<open>=\<close>) and \<open>3\<close> (\<open>\<le>\<close>), and \<open>k\<close>, with
  \<open>|k| + \<Sum>|coef| < 2^31\<close> (no value leaves the range of \<^verbatim>\<open>int\<close>). After
  \<open>PB_canonicalize\<close> every coefficient is positive, except that a coefficient \<open>0\<close> of
  the input stays \<open>0\<close>; the comparator is \<open>\<ge>\<close> or \<open>=\<close>; the coefficient map is defined
  exactly on the literals of the clause; and the constraint has the same satisfying
  assignments as before.
\<close>

theorem PB_canonicalize_correct:
  assumes "distinct clause"
    and "\<forall>v\<in>set clause. 0 < v \<and> v < 2 ^ 31"
    and "dom coefs = set clause"
    and "comparator = 1 \<or> comparator = 2 \<or> comparator = 3"
    and "\<bar>k\<bar> + (\<Sum>v\<leftarrow>clause. \<bar>valueAt coefs v\<bar>) < 2 ^ 31"
    and "PB_canonicalize clause coefs k comparator = (clause', coefs', k', comparator')"
  shows "(\<forall>l a. coefs' l = Some a \<longrightarrow> 0 < a \<or> (a = 0 \<and> coefs l = Some 0))
    \<and> (comparator' = 1 \<or> comparator' = 2)
    \<and> dom coefs' = set clause'
    \<and> (\<forall>\<sigma>. pbHolds \<sigma> clause' coefs' k' comparator' = pbHolds \<sigma> clause coefs k comparator)"
proof -
  note an = PB_canonicalize_analysis [OF assms(1,2,3,5,6)]
  have co: "\<forall>l a. coefs' l = Some a \<longrightarrow> 0 < a \<or> (a = 0 \<and> coefs l = Some 0)"
    using an(4) by blast
  have cm: "comparator' = 1 \<or> comparator' = 2"
    using an(1) assms(4) by auto
  have sem: "pbHolds \<sigma> clause' coefs' k' comparator' = pbHolds \<sigma> clause coefs k comparator" for \<sigma>
    using an(5) [of \<sigma>] an(1) assms(4) by (auto simp: pbHolds_def)
  from co cm an(3) sem show ?thesis by blast
qed

theorem PB_canonicalize_correct_witness:
  "fst (PB_canonicalize [1, 2] [1 \<mapsto> 3, 2 \<mapsto> - 2] 1 3) = [- 1, 2]
   \<and> fst (snd (PB_canonicalize [1, 2] [1 \<mapsto> 3, 2 \<mapsto> - 2] 1 3)) (- 1) = Some 3
   \<and> fst (snd (PB_canonicalize [1, 2] [1 \<mapsto> 3, 2 \<mapsto> - 2] 1 3)) 2 = Some 2
   \<and> snd (snd (PB_canonicalize [1, 2] [1 \<mapsto> 3, 2 \<mapsto> - 2] 1 3)) = (2, 1)
   \<and> dom (fst (snd (PB_canonicalize [1, 2] [1 \<mapsto> 3, 2 \<mapsto> - 2] 1 3))) = {- 1, 2}
   \<and> (\<forall>\<sigma>. pbHolds \<sigma> [- 1, 2] (fst (snd (PB_canonicalize [1, 2] [1 \<mapsto> 3, 2 \<mapsto> - 2] 1 3))) 2 1
          = pbHolds \<sigma> [1, 2] [1 \<mapsto> 3, 2 \<mapsto> - 2] 1 3)"
proof -
  let ?r = "PB_canonicalize [1, 2] [1 \<mapsto> 3, 2 \<mapsto> - 2] 1 3"
  have cl: "fst ?r = [- 1, 2]"
    by (simp add: PB_canonicalize_def int32_def touch_def valueAt_def Let_def)
  have k: "snd (snd ?r) = (2, 1)"
    by (simp add: PB_canonicalize_def int32_def touch_def valueAt_def Let_def)
  have c1: "fst (snd ?r) (- 1) = Some 3"
    by (simp add: PB_canonicalize_def int32_def touch_def valueAt_def Let_def)
  have c2: "fst (snd ?r) 2 = Some 2"
    by (simp add: PB_canonicalize_def int32_def touch_def valueAt_def Let_def)
  have eq: "?r = ([- 1, 2], fst (snd ?r), 2, 1)"
    using cl k by (metis prod.collapse)
  have h1: "distinct [1, 2 :: int]" by simp
  have h2: "\<forall>v\<in>set [1, 2 :: int]. 0 < v \<and> v < 2 ^ 31" by simp
  have h3: "dom [1 \<mapsto> 3, 2 \<mapsto> - 2 :: int] = set [1, 2 :: int]" by auto
  have h4: "(3 :: int) = 1 \<or> (3 :: int) = 2 \<or> (3 :: int) = 3" by simp
  have h5: "\<bar>1\<bar> + (\<Sum>v\<leftarrow>[1, 2]. \<bar>valueAt [1 \<mapsto> 3, 2 \<mapsto> - 2] v\<bar>) < (2 :: int) ^ 31"
    by (simp add: valueAt_def)
  from PB_canonicalize_correct [OF h1 h2 h3 h4 h5 eq] cl k c1 c2
  show ?thesis by simp
qed

text \<open>
  The claim as stated makes every coefficient strictly positive. The second loop only
  treats coefficients below \<open>0\<close>: the constraint \<open>0 x\<^sub>1 \<ge> 0\<close> keeps its coefficient \<open>0\<close>.
\<close>

theorem PB_canonicalize_zero_coefficient:
  "fst (snd (PB_canonicalize [1] [1 \<mapsto> 0] 0 1)) 1 = Some 0
   \<and> \<not> (\<forall>l a. fst (snd (PB_canonicalize [1] [1 \<mapsto> 0] 0 1)) l = Some a \<longrightarrow> 0 < a)"
proof -
  have z: "fst (snd (PB_canonicalize [1] [1 \<mapsto> 0] 0 1)) 1 = Some 0"
    by (simp add: PB_canonicalize_def int32_def touch_def valueAt_def Let_def)
  then have "\<not> (\<forall>l a. fst (snd (PB_canonicalize [1] [1 \<mapsto> 0] 0 1)) l = Some a \<longrightarrow> 0 < a)"
    by (metis less_irrefl)
  with z show ?thesis by blast
qed

text \<open>
  The bound on the magnitudes is needed: \<open>k\<close> is an \<^verbatim>\<open>int\<close>, and \<open>- x\<^sub>1 \<ge> 2147483647\<close>,
  which no assignment satisfies, becomes \<open>\<not>x\<^sub>1 \<ge> -2147483648\<close>, which every
  assignment satisfies.
\<close>

lemma PB_canonicalize_wraps:
  "snd (snd (PB_canonicalize [1] [1 \<mapsto> - 1] 2147483647 1)) = (- 2147483648, 1)
   \<and> \<not> pbHolds \<sigma> [1] [1 \<mapsto> - 1] 2147483647 1
   \<and> pbHolds \<sigma> (fst (PB_canonicalize [1] [1 \<mapsto> - 1] 2147483647 1))
        (fst (snd (PB_canonicalize [1] [1 \<mapsto> - 1] 2147483647 1))) (- 2147483648) 1"
  by (simp add: PB_canonicalize_def int32_def touch_def valueAt_def Let_def pbHolds_def pbSum_def)

subsection \<open>Show lines\<close>

lemma bindE_Inr: "bindE r f = Inr y \<Longrightarrow> \<exists>v. r = Inr v \<and> f v = Inr y"
  by (cases r) (simp_all add: bindE_def)

lemma showLoop_minMaxsat:
  "showLoop env words i st = Inr st' \<Longrightarrow>
   minMaxsatSolving st' = (if i < length words then maxsatSolving env else minMaxsatSolving st)"
proof (induction env words i st rule: showLoop.induct)
  case (1 env words i st)
  note eq = showLoop.simps [of env words i st]
  show ?case
  proof (cases "i < length words")
    case False
    with "1.prems" eq show ?thesis by simp
  next
    case True
    let ?st1 = "st\<lparr>minMaxsatSolving := maxsatSolving env\<rparr>"
    define F where "F = (\<lambda>num.
           if num = 0 then
             (if i \<noteq> length words - 1
              then Inl (MyError ''additive vars terminated prematurely by 0 | line '')
              else showLoop env words (i + 1) ?st1)
           else if num < 0 \<or> num > declaredVarCount ?st1 then Inl (MyError ''var '')
           else showLoop env words (i + 1) (?st1\<lparr>additiveVars := insert num (additiveVars ?st1)\<rparr>))"
    from "1.prems" eq True have "bindE (bindE (at_vec words i) stoll) F = Inr st'"
      by (simp add: Let_def F_def)
    from bindE_Inr [OF this] obtain num where
      num: "bindE (at_vec words i) stoll = Inr num" and r: "F num = Inr st'"
      by blast
    show ?thesis
    proof (cases "num = 0")
      case z: True
      with r have l: "i = length words - 1" and rr: "showLoop env words (i + 1) ?st1 = Inr st'"
        by (simp_all add: F_def split: if_splits)
      from l have nl: "\<not> i \<noteq> length words - 1" by simp
      from "1.IH"(1) [OF True refl z nl rr] True show ?thesis
        by (simp split: if_splits)
    next
      case nz: False
      with r have ok: "\<not> (num < 0 \<or> num > declaredVarCount ?st1)"
        and rr: "showLoop env words (i + 1) (?st1\<lparr>additiveVars := insert num (additiveVars ?st1)\<rparr>) = Inr st'"
        by (simp_all add: F_def split: if_splits)
      from "1.IH"(2) [OF True refl nz ok rr] True show ?thesis
        by (simp split: if_splits)
    qed
  qed
qed

text \<open>
  Claim C10. When projected counting or MaxSAT solving is enabled, every line that the
  parser accepts as a show line with at least one token after its keyword --- first word
  \<open>vp\<close> or \<open>vm\<close> and a second word, or \<open>c p show\<close> and a fourth word, and not taken as
  a weight line --- leaves \<open>minMaxsatSolving\<close> equal to \<open>maxsatSolving\<close>, for \<open>vp\<close>
  exactly as for \<open>vm\<close>.
\<close>

theorem showLine_sets_minMaxsatSolving:
  assumes "projectedCounting env \<or> maxsatSolving env"
    and "words = splitInputLine line"
    and "((hd words = ''vp'' \<or> hd words = ''vm'') \<and> 1 < length words)
         \<or> (hd words = ''c'' \<and> 3 < length words \<and> words ! 1 = ''p'' \<and> words ! 2 = ''show'')"
    and "\<not> isWeightLine env words"
    and "processLine env st line = Inr st'"
  shows "minMaxsatSolving st' = maxsatSolving env"
proof -
  let ?st = "st\<lparr>lineIndex := lineIndex st + 1\<rparr>"
  let ?start = "if hd words = ''vp'' \<or> hd words = ''vm'' then 1 else 3 :: nat"
  from assms(3) have ne: "words \<noteq> []" by auto
  from assms(3) have hd: "hd words \<noteq> ''p''" "hd words \<noteq> ''*''"
    "hd words \<in> {''w'', ''vp'', ''c'', ''vm''}" by auto
  from assms(1,3) have sh: "isShowLine env words" by (auto simp: isShowLine_def)
  from assms(5) have "otherLine env ?st line words = Inr st'"
    using ne hd assms(2) by (simp add: processLine_def Let_def)
  with hd(3) assms(4) sh have "showLine env ?st words = Inr st'"
    by (simp add: otherLine_def weightOrShowLine_def)
  then have loop: "showLoop env words ?start ?st = Inr st'"
    by (cases "problemLineIndex ?st = MIN_INT env") (simp_all add: showLine_def)
  from assms(3) have "?start < length words" by auto
  with showLoop_minMaxsat [OF loop] show ?thesis by simp
qed

theorem showLine_sets_minMaxsatSolving_witness:
  "map_sum id minMaxsatSolving
     (processLine (exampleEnv False False True)
        ((initialParse (exampleEnv False False True))\<lparr>problemLineIndex := 1, declaredVarCount := 2\<rparr>)
        ''vp 1 2 0'') = Inr True
   \<and> initMinMaxsatSolving (exampleEnv False False True) = False"
proof -
  let ?E = "exampleEnv False False True"
  let ?S = "(initialParse ?E)\<lparr>problemLineIndex := 1, declaredVarCount := 2\<rparr>"
  have w: "splitInputLine ''vp 1 2 0'' = [''vp'', ''1'', ''2'', ''0'']"
    by (simp add: splitInputLine_def isSpace_def)
  have "\<exists>st'. processLine ?E ?S ''vp 1 2 0'' = Inr st'"
    by (simp add: processLine_def w otherLine_def weightOrShowLine_def isWeightLine_def
        isShowLine_def showLine_def showLoop.simps exampleEnv_def initialParse_def bindE_def
        at_vec_def stoll_def strtoInt_def isSpace_def isDigit_def digitValue_def)
  then obtain st' where r: "processLine ?E ?S ''vp 1 2 0'' = Inr st'" ..
  have h1: "projectedCounting ?E \<or> maxsatSolving ?E" by (simp add: exampleEnv_def)
  have h3: "((hd (splitInputLine ''vp 1 2 0'') = ''vp'' \<or> hd (splitInputLine ''vp 1 2 0'') = ''vm'')
              \<and> 1 < length (splitInputLine ''vp 1 2 0''))
         \<or> (hd (splitInputLine ''vp 1 2 0'') = ''c'' \<and> 3 < length (splitInputLine ''vp 1 2 0'')
              \<and> splitInputLine ''vp 1 2 0'' ! 1 = ''p'' \<and> splitInputLine ''vp 1 2 0'' ! 2 = ''show'')"
    by (simp add: w)
  have h4: "\<not> isWeightLine ?E (splitInputLine ''vp 1 2 0'')"
    by (simp add: isWeightLine_def exampleEnv_def)
  from showLine_sets_minMaxsatSolving [OF h1 refl h3 h4 r]
  have "minMaxsatSolving st' = True" by (simp add: exampleEnv_def)
  with r show ?thesis by (simp add: exampleEnv_def)
qed

subsection \<open>Empty clauses\<close>

lemma parseLines_append:
  "parseLines env st (a @ b) = bindE (parseLines env st a) (\<lambda>s. parseLines env s b)"
  by (induction a arbitrary: st) (auto simp: bindE_def split: sum.splits)

lemma digit_word:
  assumes "w \<noteq> []" and "isDigit (hd w)"
  shows "w \<noteq> ''p''" "w \<noteq> ''*''" "w \<noteq> ''w''" "w \<noteq> ''vp''" "w \<noteq> ''c''" "w \<noteq> ''vm''"
    "w \<noteq> ''s''" "w \<noteq> ''INDETERMINATE''" "w \<noteq> ''x''"
    "\<not> starts_with w ''c''" "\<not> starts_with w ''*''" "\<not> starts_with w ''soft''"
    "\<not> starts_with w ''[''"
  using assms by (cases w; auto simp: isDigit_def starts_with_def)+

lemma emptyXor_line:
  assumes "splitInputLine line = [''x'', ''0'']"
    and "problemLineIndex st \<noteq> MIN_INT env" and "hwcnfFlag st \<noteq> 1" and "wcnfFlag st = 0"
    and "0 \<le> declaredVarCount st"
  shows "processLine env st line = Inl (EmptyClauseException (lineIndex st + 1) line)"
  using assms
  by (simp add: processLine_def otherLine_def starts_with_def clauseLine_def bindE_def at_vec_def
      clauseLoop.simps stoll_def strtoInt_def isSpace_def isDigit_def digitValue_def)

lemma emptyWeighted_line:
  assumes "splitInputLine line = [w, ''0'']" and "w \<noteq> []" and "isDigit (hd w)"
    and "stod env w = Inr r"
    and "problemLineIndex st \<noteq> MIN_INT env" and "hwcnfFlag st \<noteq> 1" and "wcnfFlag st \<noteq> 0"
    and "0 \<le> declaredVarCount st"
  shows "processLine env st line = Inl (EmptyClauseException (lineIndex st + 1) line)"
  using assms digit_word [OF assms(2,3)]
  by (simp add: processLine_def otherLine_def clauseLine_def bindE_def at_vec_def
      clauseLoop.simps stoll_def strtoInt_def isSpace_def isDigit_def digitValue_def
      starts_with_def [of "''0''"])

text \<open>
  Where the check for an empty clause is reached --- outside WCNF input the line \<open>x 0\<close>,
  in WCNF input (not \<open>hwcnf\<close>) a line of a weight and \<open>0\<close> --- the parser throws
  \<open>EmptyClauseException\<close> with the index and the text of the line (its constructor prints
  the warning). The exception leaves the constructor: whatever lines follow are not read,
  and no \<open>Cnf\<close> results.
\<close>

lemma emptyClause_ends_parsing:
  assumes "parseLines env (initialParse env) before = Inr st"
    and "problemLineIndex st \<noteq> MIN_INT env" and "hwcnfFlag st \<noteq> 1"
    and "0 \<le> declaredVarCount st"
    and "(wcnfFlag st = 0 \<and> splitInputLine line = [''x'', ''0''])
         \<or> (wcnfFlag st \<noteq> 0 \<and>
             (\<exists>w r. splitInputLine line = [w, ''0''] \<and> w \<noteq> [] \<and> isDigit (hd w) \<and> stod env w = Inr r))"
  shows "parseCnf env (before @ line # after) = Inl (EmptyClauseException (lineIndex st + 1) line)"
proof -
  from assms(5) have "processLine env st line = Inl (EmptyClauseException (lineIndex st + 1) line)"
  proof
    assume "wcnfFlag st = 0 \<and> splitInputLine line = [''x'', ''0'']"
    then show ?thesis using emptyXor_line [of line st env] assms(2,3,4) by simp
  next
    assume "wcnfFlag st \<noteq> 0 \<and>
             (\<exists>w r. splitInputLine line = [w, ''0''] \<and> w \<noteq> [] \<and> isDigit (hd w) \<and> stod env w = Inr r)"
    then obtain w r where "splitInputLine line = [w, ''0'']" "w \<noteq> []" "isDigit (hd w)"
      "stod env w = Inr r" "wcnfFlag st \<noteq> 0" by blast
    from emptyWeighted_line [OF this(1,2,3,4) assms(2,3) this(5) assms(4)] show ?thesis .
  qed
  then show ?thesis
    using assms(1) by (simp add: parseCnf_def parseLines_append bindE_def)
qed

lemma emptyClause_ends_parsing_example:
  "parseCnf (exampleEnv False False False) ([''p cnf 1 1''] @ ''x 0'' # [''1 0''])
     = Inl (EmptyClauseException 2 ''x 0'')
   \<and> parseCnf (exampleEnv False False True) ([''p wcnf 1 2 9''] @ ''5 0'' # [''3 1 0''])
     = Inl (EmptyClauseException 2 ''5 0'')"
proof -
  let ?E = "exampleEnv False False False"
  let ?S = "(initialParse ?E)\<lparr>declaredVarCount := 1, declaredClauseCount := 1, lineIndex := 1,
               problemLineIndex := 1, wcnfFlag := 0, hwcnfFlag := 0\<rparr>"
  have a: "parseLines ?E (initialParse ?E) [''p cnf 1 1''] = Inr ?S"
    by (simp add: processLine_def splitInputLine_def isSpace_def problemLine_def
        exampleEnv_def initialParse_def bindE_def at_vec_def stoll_def strtoInt_def isDigit_def
        digitValue_def)
  have a5: "(wcnfFlag ?S = 0 \<and> splitInputLine ''x 0'' = [''x'', ''0''])
         \<or> (wcnfFlag ?S \<noteq> 0 \<and>
             (\<exists>w r. splitInputLine ''x 0'' = [w, ''0''] \<and> w \<noteq> [] \<and> isDigit (hd w) \<and> stod ?E w = Inr r))"
    by (simp add: splitInputLine_def isSpace_def)
  have a2: "problemLineIndex ?S \<noteq> MIN_INT ?E" "hwcnfFlag ?S \<noteq> 1" "0 \<le> declaredVarCount ?S"
    by (simp_all add: exampleEnv_def)
  note r1 = emptyClause_ends_parsing [OF a a2 a5, of "[''1 0'']"]
  let ?F = "exampleEnv False False True"
  let ?T = "(initialParse ?F)\<lparr>declaredVarCount := 1, declaredClauseCount := 2, lineIndex := 1,
               problemLineIndex := 1, wcnfFlag := 1, hwcnfFlag := 0, trivialBoundPartialMaxSAT := 9\<rparr>"
  have b: "parseLines ?F (initialParse ?F) [''p wcnf 1 2 9''] = Inr ?T"
    by (simp add: processLine_def splitInputLine_def isSpace_def problemLine_def
        exampleEnv_def initialParse_def bindE_def at_vec_def stoll_def strtoInt_def isDigit_def
        digitValue_def)
  have "stod ?F ''5'' = Inr 5"
    by (simp add: exampleEnv_def decimalValue_def isDigit_def digitValue_def Let_def)
  then have b5: "(wcnfFlag ?T = 0 \<and> splitInputLine ''5 0'' = [''x'', ''0''])
         \<or> (wcnfFlag ?T \<noteq> 0 \<and>
             (\<exists>w r. splitInputLine ''5 0'' = [w, ''0''] \<and> w \<noteq> [] \<and> isDigit (hd w) \<and> stod ?F w = Inr r))"
    by (simp add: splitInputLine_def isSpace_def isDigit_def)
  have b2: "problemLineIndex ?T \<noteq> MIN_INT ?F" "hwcnfFlag ?T \<noteq> 1" "0 \<le> declaredVarCount ?T"
    by (simp_all add: exampleEnv_def)
  note r2 = emptyClause_ends_parsing [OF b b2 b5, of "[''3 1 0'']"]
  from r1 r2 show ?thesis by simp
qed

text \<open>
  A line of the single word \<open>0\<close>, after the problem line of input that is not \<open>hwcnf\<close>:
  the branch for a clause line first evaluates \<^verbatim>\<open>words.at(1)\<close>, which throws.
\<close>

lemma zeroLine_out_of_range:
  assumes "parseLines env (initialParse env) before = Inr st"
    and "problemLineIndex st \<noteq> MIN_INT env" and "hwcnfFlag st \<noteq> 1"
    and "splitInputLine line = [''0'']"
  shows "parseCnf env (before @ line # after) = Inl out_of_range"
proof -
  from assms(2,3,4) have "processLine env st line = Inl out_of_range"
    by (simp add: processLine_def otherLine_def starts_with_def clauseLine_def bindE_def
        at_vec_def)
  with assms(1) show ?thesis by (simp add: parseCnf_def parseLines_append bindE_def)
qed

text \<open>
  Claim C2. An empty clause line, a line of only the terminating \<open>0\<close>, is to raise
  \<open>EmptyClauseException\<close> as a warning, after which parsing continues to a complete \<open>Cnf\<close>.
  The parser has the check \<^verbatim>\<open>clause.empty()\<close> that throws this exception, but on such a line
  it is not reached: on the input \<open>p cnf 1 1 / 0\<close> the constructor ends with the
  \<open>out_of_range\<close> of \<^verbatim>\<open>words.at(1)\<close> (lemma \<open>zeroLine_out_of_range\<close>). Where the check is
  reached, on \<open>p cnf 1 1 / x 0 / 1 0\<close>, the exception is raised at line 2, and line 3 is
  not read.
\<close>

theorem emptyClause_no_Cnf:
  "parseCnf (exampleEnv False False False) [''p cnf 1 1'', ''0''] = Inl out_of_range
   \<and> parseCnf (exampleEnv False False False) [''p cnf 1 1'', ''x 0'', ''1 0'']
       = Inl (EmptyClauseException 2 ''x 0'')"
  by (simp add: parseCnf_def processLine_def splitInputLine_def isSpace_def problemLine_def
    exampleEnv_def initialParse_def bindE_def at_vec_def stoll_def strtoInt_def isDigit_def digitValue_def
    otherLine_def starts_with_def clauseLine_def clauseLoop.simps)

subsection \<open>Literal weights\<close>

lemma unitWeights_result:
  assumes "Number env ''1'' = Inr one"
  shows "unitWeights env vs lw = Inr (\<lambda>l. if l \<in> set vs \<or> - l \<in> set vs then Some one else lw l)"
proof (induction vs arbitrary: lw)
  case Nil
  then show ?case by simp
next
  case (Cons v vs)
  have "unitWeights env (v # vs) lw = unitWeights env vs (lw(v \<mapsto> one, - v \<mapsto> one))"
    by (simp add: assms bindE_def)
  also have "\<dots> = Inr (\<lambda>l. if l \<in> set vs \<or> - l \<in> set vs then Some one
                          else (lw(v \<mapsto> one, - v \<mapsto> one)) l)"
    by (rule Cons.IH)
  also have "(\<lambda>l. if l \<in> set vs \<or> - l \<in> set vs then Some one
                          else (lw(v \<mapsto> one, - v \<mapsto> one)) l)
      = (\<lambda>l. if l \<in> set (v # vs) \<or> - l \<in> set (v # vs) then Some one else lw l)"
    by (rule ext) auto
  finally show ?case .
qed

lemma completeWeights_result:
  assumes one: "Number env ''1'' = Inr one"
    and "completeWeights env vs lw = Inr lw'"
    and "distinct vs" and "\<forall>v\<in>set vs. 0 < v"
  shows "(\<forall>l. l \<notin> set vs \<and> - l \<notin> set vs \<longrightarrow> lw' l = lw l)
       \<and> (\<forall>v\<in>set vs. completed env one lw lw' v)"
  using assms(2-)
proof (induction vs arbitrary: lw)
  case Nil
  then show ?case by simp
next
  case (Cons x vs)
  from Cons.prems have x: "0 < x" "x \<notin> set vs" "- x \<notin> set vs"
    and dv: "distinct vs" and pv: "\<forall>v\<in>set vs. 0 < v"
    by auto
  define lw1 where "lw1 =
     (if lw x = None \<and> lw (- x) = None then lw(x \<mapsto> one, - x \<mapsto> one)
      else if lw x = None then lw(x \<mapsto> numMinus env one (the (lw (- x))))
      else if lw (- x) = None then lw(- x \<mapsto> numMinus env one (the (lw x)))
      else lw)"
  from Cons.prems(1) have rest: "completeWeights env vs lw1 = Inr lw'"
    by (auto simp: one bindE_def lw1_def split: if_splits option.splits)
  note ih = Cons.IH [OF rest dv pv]
  have keep: "lw1 l = lw l" if "l \<noteq> x" "l \<noteq> - x" for l
    using that by (simp add: lw1_def)
  have other: "\<forall>l. l \<notin> set (x # vs) \<and> - l \<notin> set (x # vs) \<longrightarrow> lw' l = lw l"
  proof (intro allI impI)
    fix l assume l: "l \<notin> set (x # vs) \<and> - l \<notin> set (x # vs)"
    then have "l \<noteq> x" "l \<noteq> - x" by auto
    with ih l keep show "lw' l = lw l" by simp
  qed
  have cx: "completed env one lw lw' x"
  proof -
    from ih x have "lw' x = lw1 x" "lw' (- x) = lw1 (- x)" by simp_all
    moreover from x(1) have "x \<noteq> - x" by simp
    ultimately show ?thesis
      by (auto simp: completed_def lw1_def split: option.splits)
  qed
  have cv: "completed env one lw lw' v" if v: "v \<in> set vs" for v
  proof -
    from ih v have c1: "completed env one lw1 lw' v" by blast
    from v pv x have "v \<noteq> x" "v \<noteq> - x" "- v \<noteq> x" "- v \<noteq> - x" by force+
    then have "lw1 v = lw v" "lw1 (- v) = lw (- v)" by (simp_all add: keep)
    with c1 show ?thesis by (simp add: completed_def)
  qed
  from other cx cv show ?case by auto
qed

lemma completeWeights_returns:
  assumes "Number env ''1'' = Inr one" and "\<not> logCounting env"
  shows "\<exists>lw'. completeWeights env vs lw = Inr lw'"
  by (induction vs arbitrary: lw) (auto simp: assms bindE_def split: option.splits)

lemma finishCnf_weights:
  assumes "finishCnf env st = Inr st'"
  shows "declaredVarCount st' = declaredVarCount st"
    and "(if \<not> weightedCounting env then unitWeights env else completeWeights env)
           [1 .. declaredVarCount st] (literalWeights st) = Inr (literalWeights st')"
  using assms
  by (auto simp: finishCnf_def Let_def setApparentVars_def bindE_def split: if_splits sum.splits)

lemma finishCnf_returns:
  assumes "problemLineIndex st \<noteq> MIN_INT env" and "Number env ''1'' = Inr one"
    and "\<not> logCounting env"
  shows "\<exists>st'. finishCnf env st = Inr st'"
proof (cases "weightedCounting env")
  case True
  with completeWeights_returns [OF assms(2,3)] assms(1) show ?thesis
    by (auto simp: finishCnf_def Let_def bindE_def split: sum.splits) (metis Inl_Inr_False)+
next
  case False
  with unitWeights_result [OF assms(2)] assms(1) show ?thesis
    by (auto simp: finishCnf_def Let_def bindE_def split: sum.splits)
qed

lemma completeWeights_asserted:
  assumes one: "Number env ''1'' = Inr one"
  shows "distinct vs \<Longrightarrow> \<forall>v\<in>set vs. 0 < v \<Longrightarrow>
    \<forall>v\<in>set vs. \<forall>w. (lw v = None \<and> lw (- v) = Some w) \<or> (lw v = Some w \<and> lw (- v) = None)
       \<longrightarrow> numLessEq env w one \<Longrightarrow>
    \<exists>lw'. completeWeights env vs lw = Inr lw'"
proof (induction vs arbitrary: lw)
  case Nil
  then show ?case by simp
next
  case (Cons x vs)
  from Cons.prems have x: "0 < x" "x \<notin> set vs" "- x \<notin> set vs"
    and dv: "distinct vs" and pv: "\<forall>v\<in>set vs. 0 < v"
    by auto
  define lw1 where "lw1 =
     (if lw x = None \<and> lw (- x) = None then lw(x \<mapsto> one, - x \<mapsto> one)
      else if lw x = None then lw(x \<mapsto> numMinus env one (the (lw (- x))))
      else if lw (- x) = None then lw(- x \<mapsto> numMinus env one (the (lw x)))
      else lw)"
  have ok: "numLessEq env w one"
    if "(lw x = None \<and> lw (- x) = Some w) \<or> (lw x = Some w \<and> lw (- x) = None)" for w
    using Cons.prems(3) that by auto
  have step: "completeWeights env (x # vs) lw = completeWeights env vs lw1"
    using ok by (auto simp: one bindE_def lw1_def split: option.splits)
  have keep: "lw1 v = lw v \<and> lw1 (- v) = lw (- v)" if "v \<in> set vs" for v
  proof -
    from that pv x have "v \<noteq> x" "v \<noteq> - x" "- v \<noteq> x" "- v \<noteq> - x" by force+
    then show ?thesis by (simp add: lw1_def)
  qed
  have "\<forall>v\<in>set vs. \<forall>w. (lw1 v = None \<and> lw1 (- v) = Some w) \<or> (lw1 v = Some w \<and> lw1 (- v) = None)
       \<longrightarrow> numLessEq env w one"
    using Cons.prems(3) keep by simp
  from Cons.IH [OF dv pv this] step show ?case by simp
qed

lemma finishCnf_asserted:
  assumes "problemLineIndex st \<noteq> MIN_INT env" and "Number env ''1'' = Inr one"
    and "weightedCounting env \<and> logCounting env \<longrightarrow>
      (\<forall>v w. 1 \<le> v \<and> v \<le> declaredVarCount st \<and>
         ((literalWeights st v = None \<and> literalWeights st (- v) = Some w) \<or>
          (literalWeights st v = Some w \<and> literalWeights st (- v) = None))
       \<longrightarrow> numLessEq env w one)"
  shows "\<exists>st'. finishCnf env st = Inr st'"
proof (cases "weightedCounting env \<and> logCounting env")
  case False
  with finishCnf_returns [OF assms(1,2)] unitWeights_result [OF assms(2)] assms(1) show ?thesis
    by (cases "weightedCounting env") (auto simp: finishCnf_def Let_def bindE_def split: sum.splits)
next
  case True
  let ?n = "declaredVarCount st"
  have d: "distinct [1 .. ?n]" "\<forall>v\<in>set [1 .. ?n]. 0 < v" by simp_all
  from True assms(3) have a: "\<forall>v w. 1 \<le> v \<and> v \<le> ?n \<and>
         ((literalWeights st v = None \<and> literalWeights st (- v) = Some w) \<or>
          (literalWeights st v = Some w \<and> literalWeights st (- v) = None))
       \<longrightarrow> numLessEq env w one"
    by blast
  have "\<forall>v\<in>set [1 .. ?n]. \<forall>w.
      (literalWeights st v = None \<and> literalWeights st (- v) = Some w) \<or>
      (literalWeights st v = Some w \<and> literalWeights st (- v) = None)
       \<longrightarrow> numLessEq env w one"
  proof (intro ballI allI impI)
    fix v w
    assume "v \<in> set [1 .. ?n]"
      and d: "(literalWeights st v = None \<and> literalWeights st (- v) = Some w) \<or>
        (literalWeights st v = Some w \<and> literalWeights st (- v) = None)"
    then have "1 \<le> v \<and> v \<le> ?n" by simp
    with a d show "numLessEq env w one" by blast
  qed
  from completeWeights_asserted [OF assms(2) d this] obtain lw' where
    "completeWeights env [1 .. ?n] (literalWeights st) = Inr lw'" ..
  with True assms(1) show ?thesis
    by (simp add: finishCnf_def Let_def bindE_def setApparentVars_def)
qed

text \<open>
  Claim C3. Let \<open>st\<close> be the state after the last line (its \<open>literalWeights\<close> hold the
  weights supplied by weight lines), \<open>n\<close> the declared variable count and \<open>one\<close> the value
  of \<^verbatim>\<open>Number("1")\<close>. After a problem line the constructor completes (under weighted
  counting in log space: when every weight that was supplied on one side only passes the
  assertion \<open>w \<le> one\<close>), and whenever it completes, with the \<open>Cnf\<close> \<open>st'\<close>:
  \<open>literalWeights\<close> of \<open>st'\<close> is defined on every literal of \<open>{-n..n} - {0}\<close>; without
  weighted counting each of them has weight \<open>one\<close>; with weighted counting, for every
  variable \<open>v\<close> of \<open>1..n\<close>: if neither \<open>v\<close> nor \<open>-v\<close> was supplied both have weight \<open>one\<close>,
  if exactly one side was supplied it keeps its weight \<open>w\<close> and the other side has
  \<open>one - w\<close>, and if both were supplied both keep their weights.
\<close>

theorem literalWeights_completed:
  assumes "parseLines env (initialParse env) lines = Inr st"
    and "Number env ''1'' = Inr one"
  shows "(problemLineIndex st \<noteq> MIN_INT env \<and>
          (weightedCounting env \<and> logCounting env \<longrightarrow>
             (\<forall>v w. 1 \<le> v \<and> v \<le> declaredVarCount st \<and>
                ((literalWeights st v = None \<and> literalWeights st (- v) = Some w) \<or>
                 (literalWeights st v = Some w \<and> literalWeights st (- v) = None))
              \<longrightarrow> numLessEq env w one))
          \<longrightarrow> (\<exists>st'. parseCnf env lines = Inr st'))
    \<and> (\<forall>st'. parseCnf env lines = Inr st' \<longrightarrow>
        declaredVarCount st' = declaredVarCount st
      \<and> (\<forall>l. l \<noteq> 0 \<and> - declaredVarCount st' \<le> l \<and> l \<le> declaredVarCount st'
            \<longrightarrow> literalWeights st' l \<noteq> None)
      \<and> (\<not> weightedCounting env \<longrightarrow>
          (\<forall>l. l \<noteq> 0 \<and> - declaredVarCount st' \<le> l \<and> l \<le> declaredVarCount st'
            \<longrightarrow> literalWeights st' l = Some one))
      \<and> (weightedCounting env \<longrightarrow>
          (\<forall>v. 1 \<le> v \<and> v \<le> declaredVarCount st' \<longrightarrow>
             (literalWeights st v = None \<and> literalWeights st (- v) = None \<longrightarrow>
                literalWeights st' v = Some one \<and> literalWeights st' (- v) = Some one)
           \<and> (\<forall>w. literalWeights st v = Some w \<and> literalWeights st (- v) = None \<longrightarrow>
                literalWeights st' v = Some w \<and>
                literalWeights st' (- v) = Some (numMinus env one w))
           \<and> (\<forall>w. literalWeights st v = None \<and> literalWeights st (- v) = Some w \<longrightarrow>
                literalWeights st' (- v) = Some w \<and>
                literalWeights st' v = Some (numMinus env one w))
           \<and> (\<forall>w w'. literalWeights st v = Some w \<and> literalWeights st (- v) = Some w' \<longrightarrow>
                literalWeights st' v = Some w \<and> literalWeights st' (- v) = Some w'))))"
proof -
  have production: "\<exists>st'. parseCnf env lines = Inr st'"
    if "problemLineIndex st \<noteq> MIN_INT env \<and>
          (weightedCounting env \<and> logCounting env \<longrightarrow>
             (\<forall>v w. 1 \<le> v \<and> v \<le> declaredVarCount st \<and>
                ((literalWeights st v = None \<and> literalWeights st (- v) = Some w) \<or>
                 (literalWeights st v = Some w \<and> literalWeights st (- v) = None))
              \<longrightarrow> numLessEq env w one))"
  proof -
    from that have "\<exists>st'. finishCnf env st = Inr st'"
      using finishCnf_asserted [OF _ assms(2), of st] by blast
    with assms(1) show ?thesis by (simp add: parseCnf_def bindE_def)
  qed
  have result: "declaredVarCount st' = declaredVarCount st
      \<and> (\<forall>l. l \<noteq> 0 \<and> - declaredVarCount st' \<le> l \<and> l \<le> declaredVarCount st'
            \<longrightarrow> literalWeights st' l \<noteq> None)
      \<and> (\<not> weightedCounting env \<longrightarrow>
          (\<forall>l. l \<noteq> 0 \<and> - declaredVarCount st' \<le> l \<and> l \<le> declaredVarCount st'
            \<longrightarrow> literalWeights st' l = Some one))
      \<and> (weightedCounting env \<longrightarrow>
          (\<forall>v. 1 \<le> v \<and> v \<le> declaredVarCount st' \<longrightarrow>
             (literalWeights st v = None \<and> literalWeights st (- v) = None \<longrightarrow>
                literalWeights st' v = Some one \<and> literalWeights st' (- v) = Some one)
           \<and> (\<forall>w. literalWeights st v = Some w \<and> literalWeights st (- v) = None \<longrightarrow>
                literalWeights st' v = Some w \<and>
                literalWeights st' (- v) = Some (numMinus env one w))
           \<and> (\<forall>w. literalWeights st v = None \<and> literalWeights st (- v) = Some w \<longrightarrow>
                literalWeights st' (- v) = Some w \<and>
                literalWeights st' v = Some (numMinus env one w))
           \<and> (\<forall>w w'. literalWeights st v = Some w \<and> literalWeights st (- v) = Some w' \<longrightarrow>
                literalWeights st' v = Some w \<and> literalWeights st' (- v) = Some w')))"
    if ret: "parseCnf env lines = Inr st'" for st'
  proof -
  let ?n = "declaredVarCount st"
  let ?lw = "literalWeights st" and ?lw' = "literalWeights st'"
  from assms(1) ret have fin: "finishCnf env st = Inr st'"
    by (simp add: parseCnf_def bindE_def)
  note n = finishCnf_weights(1) [OF fin] and w = finishCnf_weights(2) [OF fin]
  have lit: "(l \<in> set [1 .. ?n] \<or> - l \<in> set [1 .. ?n]) \<longleftrightarrow> (l \<noteq> 0 \<and> - ?n \<le> l \<and> l \<le> ?n)" for l
    by auto
  show ?thesis
  proof (cases "weightedCounting env")
    case False
    with w unitWeights_result [OF assms(2), of "[1 .. ?n]" ?lw]
    have "?lw' = (\<lambda>l. if l \<in> set [1 .. ?n] \<or> - l \<in> set [1 .. ?n] then Some one else ?lw l)"
      by simp
    then have "\<forall>l. l \<noteq> 0 \<and> - ?n \<le> l \<and> l \<le> ?n \<longrightarrow> ?lw' l = Some one"
      using lit by simp
    with False n show ?thesis by simp
  next
    case True
    with w have cw: "completeWeights env [1 .. ?n] ?lw = Inr ?lw'" by simp
    have d: "distinct [1 .. ?n]" "\<forall>v\<in>set [1 .. ?n]. 0 < v" by simp_all
    from completeWeights_result [OF assms(2) cw d]
    have c: "completed env one ?lw ?lw' v" if "1 \<le> v" "v \<le> ?n" for v
      using that by simp
    have tot: "?lw' l \<noteq> None" if l: "l \<noteq> 0" "- ?n \<le> l" "l \<le> ?n" for l
    proof (cases "0 < l")
      case True
      with l c [of l] show ?thesis
        by (auto simp: completed_def split: option.splits)
    next
      case False
      with l c [of "- l"] show ?thesis
        by (auto simp: completed_def split: option.splits)
    qed
    have cases: "(?lw v = None \<and> ?lw (- v) = None \<longrightarrow> ?lw' v = Some one \<and> ?lw' (- v) = Some one)
           \<and> (\<forall>w. ?lw v = Some w \<and> ?lw (- v) = None \<longrightarrow>
                ?lw' v = Some w \<and> ?lw' (- v) = Some (numMinus env one w))
           \<and> (\<forall>w. ?lw v = None \<and> ?lw (- v) = Some w \<longrightarrow>
                ?lw' (- v) = Some w \<and> ?lw' v = Some (numMinus env one w))
           \<and> (\<forall>w w'. ?lw v = Some w \<and> ?lw (- v) = Some w' \<longrightarrow>
                ?lw' v = Some w \<and> ?lw' (- v) = Some w')"
      if "1 \<le> v" "v \<le> ?n" for v
      using c [OF that] by (auto simp: completed_def split: option.splits)
    from True tot cases n show ?thesis by simp
  qed
qed
  from production result show ?thesis by blast
qed

lemma exampleEnv_one: "Number (exampleEnv weighted projected maxsat) ''1'' = Inr (Quotient 1)"
  by (simp add: exampleEnv_def Number_string_def exampleLib_def Number_mpq_def decimalValue_def
      isDigit_def digitValue_def bindE_def Let_def)

theorem literalWeights_completed_witness:
  "map_sum id (\<lambda>st. (literalWeights st 1, literalWeights st (- 1)))
     (parseCnf (exampleEnv False False False) [''p cnf 1 1'', ''1 0''])
   = Inr (Some (Quotient 1), Some (Quotient 1))
   \<and> map_sum id (\<lambda>st. (literalWeights st 1, literalWeights st (- 1)))
     (parseCnf (exampleEnv True False False) [''p cnf 1 1'', ''w 1 0.25'', ''1 0''])
   = Inr (Some (Quotient (1 / 4)), Some (Quotient (3 / 4)))"
proof
  let ?E = "exampleEnv False False False"
  let ?ls = "[''p cnf 1 1'', ''1 0'']"
  note ev = processLine_def splitInputLine_def isSpace_def problemLine_def
    exampleEnv_def initialParse_def bindE_def at_vec_def stoll_def strtoInt_def isDigit_def
    digitValue_def otherLine_def starts_with_def clauseLine_def clauseLoop.simps
    addClause_def Let_def
  have "\<exists>st. parseLines ?E (initialParse ?E) ?ls = Inr st \<and> declaredVarCount st = 1
          \<and> problemLineIndex st = 1"
    by (simp add: ev)
  then obtain st where st: "parseLines ?E (initialParse ?E) ?ls = Inr st" "declaredVarCount st = 1"
    "problemLineIndex st = 1" by (elim exE conjE)
  have e: "\<not> weightedCounting ?E" "MIN_INT ?E \<noteq> 1" by (simp_all add: exampleEnv_def)
  note t = literalWeights_completed [OF st(1) exampleEnv_one]
  from t st(3) e obtain st' where st': "parseCnf ?E ?ls = Inr st'" by auto
  with t st(2) e(1) have "literalWeights st' 1 = Some (Quotient 1)"
    "literalWeights st' (- 1) = Some (Quotient 1)" by simp_all
  with st' show "map_sum id (\<lambda>st. (literalWeights st 1, literalWeights st (- 1))) (parseCnf ?E ?ls)
      = Inr (Some (Quotient 1), Some (Quotient 1))" by simp
next
  let ?E = "exampleEnv True False False"
  let ?ls = "[''p cnf 1 1'', ''w 1 0.25'', ''1 0'']"
  note ev = processLine_def splitInputLine_def isSpace_def problemLine_def
    exampleEnv_def initialParse_def bindE_def at_vec_def stoll_def strtoInt_def isDigit_def
    digitValue_def otherLine_def starts_with_def clauseLine_def clauseLoop.simps
    weightOrShowLine_def isWeightLine_def weightLine_def addClause_def Let_def
    Number_string_def exampleLib_def Number_mpq_def Number_less_def decimalValue_def
  have "\<exists>st. parseLines ?E (initialParse ?E) ?ls = Inr st \<and> declaredVarCount st = 1
          \<and> problemLineIndex st = 1
          \<and> literalWeights st 1 = Some (Quotient (1 / 4)) \<and> literalWeights st (- 1) = None"
    by (simp add: ev)
  then obtain st where st: "parseLines ?E (initialParse ?E) ?ls = Inr st" "declaredVarCount st = 1"
    "problemLineIndex st = 1"
    "literalWeights st 1 = Some (Quotient (1 / 4))" "literalWeights st (- 1) = None"
    by (elim exE conjE)
  have e: "weightedCounting ?E" "\<not> logCounting ?E" "MIN_INT ?E \<noteq> 1"
    by (simp_all add: exampleEnv_def)
  note t = literalWeights_completed [OF st(1) exampleEnv_one]
  from t st(3) e obtain st' where st': "parseCnf ?E ?ls = Inr st'" by auto
  with t st(2,4,5) e(1) have "literalWeights st' 1 = Some (Quotient (1 / 4))"
    "literalWeights st' (- 1) = Some (numMinus ?E (Quotient 1) (Quotient (1 / 4)))" by simp_all
  then have "literalWeights st' 1 = Some (Quotient (1 / 4))"
    "literalWeights st' (- 1) = Some (Quotient (3 / 4))"
    by (simp_all add: exampleEnv_def Number_minus_def exampleLib_def)
  with st' show "map_sum id (\<lambda>st. (literalWeights st 1, literalWeights st (- 1))) (parseCnf ?E ?ls)
      = Inr (Some (Quotient (1 / 4)), Some (Quotient (3 / 4)))" by simp
qed

text \<open>
  The input \<open>p cnf 1 1 / w 1 0.3 / 1 0\<close> under weighted counting, for every class
  \<^verbatim>\<open>Number\<close>: literal \<open>1\<close> has the weight \<^verbatim>\<open>Number("0.3")\<close> and literal \<open>-1\<close> the weight
  \<^verbatim>\<open>Number("1") - Number("0.3")\<close>, with the values that the class reads from these texts and
  the difference that its \<^verbatim>\<open>operator-\<close> gives.
\<close>

lemma literalWeights_S2:
  assumes wc: "weightedCounting env" and mn: "MIN_INT env < 0"
    and w: "Number env ''0.3'' = Inr w" "\<not> numLess env w (Number0 env)"
    and one: "Number env ''1'' = Inr one"
    and lg: "logCounting env \<longrightarrow> numLessEq env w one"
  shows "\<exists>st'. parseCnf env [''p cnf 1 1'', ''w 1 0.3'', ''1 0''] = Inr st' \<and>
           literalWeights st' 1 = Some w \<and> literalWeights st' (- 1) = Some (numMinus env one w)"
proof -
  let ?ls = "[''p cnf 1 1'', ''w 1 0.3'', ''1 0'']"
  note ev = processLine_def splitInputLine_def isSpace_def problemLine_def
    initialParse_def bindE_def at_vec_def stoll_def strtoInt_def isDigit_def
    digitValue_def otherLine_def starts_with_def clauseLine_def clauseLoop.simps
    weightOrShowLine_def isWeightLine_def weightLine_def addClause_def Let_def
  have "\<exists>st. parseLines env (initialParse env) ?ls = Inr st \<and> declaredVarCount st = 1
          \<and> problemLineIndex st = 1
          \<and> literalWeights st 1 = Some w \<and> literalWeights st (- 1) = None"
    using wc mn w by (simp add: ev)
  then obtain st where st: "parseLines env (initialParse env) ?ls = Inr st" "declaredVarCount st = 1"
    "problemLineIndex st = 1" "literalWeights st 1 = Some w" "literalWeights st (- 1) = None"
    by (elim exE conjE)
  have "completeWeights env [1 .. declaredVarCount st] (literalWeights st)
      = Inr ((literalWeights st)(- 1 \<mapsto> numMinus env one w))"
    using st(2,4,5) one lg by (simp add: bindE_def)
  with st(1,3) mn wc show ?thesis
    by (simp add: parseCnf_def finishCnf_def setApparentVars_def bindE_def Let_def st(4))
qed

subsection \<open>Log-sum-exp\<close>

text \<open>
  Claim C9. In log-counting mode, for floating-point operations in which \<open>-\<infinity>\<close>
  compares equal to itself and to nothing else: \<open>a.getLogSumExp(-\<infinity>)\<close> and
  \<open>(-\<infinity>).getLogSumExp(a)\<close> return \<open>a\<close> unchanged, for every \<open>a\<close>; and when neither
  operand is \<open>-\<infinity>\<close> the result is \<open>log\<^sub>1\<^sub>0(10^(a-M) + 10^(b-M)) + M\<close> with
  \<open>M = max(a, b)\<close>, in the operations of the floating-point type.
\<close>

theorem getLogSumExp_absorbing:
  assumes "\<forall>x. fEq fl x (NEG_INF fl) \<longleftrightarrow> x = NEG_INF fl"
  shows "getLogSumExp fl True a (NEG_INF fl) = Inr a
    \<and> getLogSumExp fl True (NEG_INF fl) a = Inr a
    \<and> (a \<noteq> NEG_INF fl \<and> b \<noteq> NEG_INF fl \<longrightarrow>
         getLogSumExp fl True a b =
           Inr (fAdd fl (log10l fl (fAdd fl (exp10l fl (fSub fl a (fMax fl a b)))
                                            (exp10l fl (fSub fl b (fMax fl a b)))))
                  (fMax fl a b)))"
  using assms by (simp add: getLogSumExp_def Let_def)

theorem getLogSumExp_absorbing_witness:
  "getLogSumExp exactFloat True (Some 2) None = Inr (Some 2)
   \<and> getLogSumExp exactFloat True None (Some 2) = Inr (Some 2)
   \<and> getLogSumExp exactFloat True None None = Inr None
   \<and> getLogSumExp exactFloat True (Some 1) (Some 1) = Inr (Some (log 10 2 + 1))"
proof -
  have h: "\<forall>x. fEq exactFloat x (NEG_INF exactFloat) \<longleftrightarrow> x = NEG_INF exactFloat"
    by (simp add: exactFloat_def)
  from getLogSumExp_absorbing [OF h, of "Some 2" "Some 2"]
    getLogSumExp_absorbing [OF h, of None None]
    getLogSumExp_absorbing [OF h, of "Some 1" "Some 1"]
  show ?thesis by (simp add: exactFloat_def)
qed

subsection \<open>Well-formed graphs\<close>

lemma wfGraph_closed:
  "wfGraph g \<Longrightarrow> map_of (adjacencyMap g) u = Some ns \<Longrightarrow>
   distinct ns \<and> set ns \<subseteq> dom (map_of (adjacencyMap g))"
  unfolding wfGraph_def by blast

lemma wfGraph_keys: "wfGraph g \<Longrightarrow> set (vertices g) = dom (map_of (adjacencyMap g))"
  unfolding wfGraph_def by blast

lemma wfGraph_distinct:
  "wfGraph g \<Longrightarrow> distinct (vertices g)" "wfGraph g \<Longrightarrow> distinct (map fst (adjacencyMap g))"
  unfolding wfGraph_def by blast+

lemma bindE_simps [simp]: "bindE (Inr v) f = f v" "bindE (Inl e) f = Inl e"
  by (simp_all add: bindE_def)

lemma newGraph_fold:
  "foldl (\<lambda>g v. \<lparr>vertices = List.insert v (vertices g),
                  adjacencyMap = AList.update v [] (adjacencyMap g)\<rparr>) g vs = g' \<Longrightarrow>
   distinct (vertices g) \<Longrightarrow> distinct (map fst (adjacencyMap g)) \<Longrightarrow>
   distinct (vertices g') \<and> distinct (map fst (adjacencyMap g')) \<and>
   set (vertices g') = set (vertices g) \<union> set vs \<and>
   dom (map_of (adjacencyMap g')) = dom (map_of (adjacencyMap g)) \<union> set vs \<and>
   (\<forall>u ns. map_of (adjacencyMap g') u = Some ns \<longrightarrow>
       map_of (adjacencyMap g) u = Some ns \<or> ns = [])"
proof (induction vs arbitrary: g)
  case Nil
  then show ?case by simp
next
  case (Cons v vs)
  let ?g1 = "\<lparr>vertices = List.insert v (vertices g),
         adjacencyMap = AList.update v [] (adjacencyMap g)\<rparr>"
  from Cons.prems have f: "foldl (\<lambda>g v. \<lparr>vertices = List.insert v (vertices g),
                  adjacencyMap = AList.update v [] (adjacencyMap g)\<rparr>) ?g1 vs = g'" by simp
  from Cons.prems have d: "distinct (vertices ?g1)" "distinct (map fst (adjacencyMap ?g1))"
    by (simp_all add: distinct_update)
  from Cons.IH [OF f d] show ?case
    by (auto simp: update_conv' split: if_splits)
qed

lemma wfGraph_newGraph: "wfGraph (newGraph vs)" "set (vertices (newGraph vs)) = set vs"
proof -
  have e: "distinct (vertices emptyGraph)" "distinct (map fst (adjacencyMap emptyGraph))"
    by (simp_all add: emptyGraph_def)
  from newGraph_fold [OF refl e, of vs]
  have n: "distinct (vertices (newGraph vs))" "distinct (map fst (adjacencyMap (newGraph vs)))"
    "set (vertices (newGraph vs)) = set vs"
    "dom (map_of (adjacencyMap (newGraph vs))) = set vs"
    "\<forall>u ns. map_of (adjacencyMap (newGraph vs)) u = Some ns \<longrightarrow> ns = []"
    by (simp_all add: newGraph_def emptyGraph_def)
  from n(3) show "set (vertices (newGraph vs)) = set vs" .
  from n show "wfGraph (newGraph vs)"
    unfolding wfGraph_def by (metis distinct.simps(1) empty_set empty_subsetI)
qed

lemma addEdge_returns:
  assumes "v1 \<in> dom (map_of (adjacencyMap g))" and "v2 \<in> dom (map_of (adjacencyMap g))"
  shows "\<exists>g'. addEdge g v1 v2 = Inr g'"
proof -
  from assms obtain n1 n2 where n: "map_of (adjacencyMap g) v1 = Some n1"
    "map_of (adjacencyMap g) v2 = Some n2" by auto
  then have "map_of (AList.update v1 (List.insert v2 n1) (adjacencyMap g)) v2 \<noteq> None"
    by (simp add: update_conv')
  then obtain m where "map_of (AList.update v1 (List.insert v2 n1) (adjacencyMap g)) v2 = Some m"
    by blast
  with n(1) show ?thesis by (simp add: addEdge_def Let_def)
qed

lemma addEdge_map_of:
  assumes "addEdge g v1 v2 = Inr g'"
  obtains n1 n2 where "map_of (adjacencyMap g) v1 = Some n1"
    and "map_of (adjacencyMap g) v2 = Some n2"
    and "map_of (adjacencyMap g') =
       (map_of (adjacencyMap g))(v1 \<mapsto> List.insert v2 n1,
          v2 \<mapsto> List.insert v1 (if v2 = v1 then List.insert v2 n1 else n2))"
proof -
  from assms obtain n1 where n1: "map_of (adjacencyMap g) v1 = Some n1"
    by (cases "map_of (adjacencyMap g) v1") (simp_all add: addEdge_def)
  let ?am = "AList.update v1 (List.insert v2 n1) (adjacencyMap g)"
  from assms n1 obtain m where m: "map_of ?am v2 = Some m"
    by (cases "map_of ?am v2") (simp_all add: addEdge_def Let_def)
  from assms n1 m have g': "adjacencyMap g' = AList.update v2 (List.insert v1 m) ?am"
    by (auto simp: addEdge_def Let_def)
  show ?thesis
  proof (cases "v2 = v1")
    case True
    with m have "m = List.insert v2 n1" by (simp add: update_conv')
    with True n1 g' have "map_of (adjacencyMap g') =
       (map_of (adjacencyMap g))(v1 \<mapsto> List.insert v2 n1,
          v2 \<mapsto> List.insert v1 (if v2 = v1 then List.insert v2 n1 else n1))"
      by (simp add: update_conv')
    with True n1 show ?thesis by (intro that [of n1 n1]) simp_all
  next
    case False
    with m have m2: "map_of (adjacencyMap g) v2 = Some m" by (simp add: update_conv')
    with False n1 g' have "map_of (adjacencyMap g') =
       (map_of (adjacencyMap g))(v1 \<mapsto> List.insert v2 n1,
          v2 \<mapsto> List.insert v1 (if v2 = v1 then List.insert v2 n1 else m))"
      by (simp add: update_conv')
    with n1 m2 show ?thesis by (intro that [of n1 m]) simp_all
  qed
qed

lemma addEdge_distinct_keys:
  assumes "addEdge g v1 v2 = Inr g'" and "distinct (map fst (adjacencyMap g))"
  shows "distinct (map fst (adjacencyMap g'))"
proof -
  from assms(1) obtain n1 where n1: "map_of (adjacencyMap g) v1 = Some n1"
    by (cases "map_of (adjacencyMap g) v1") (simp_all add: addEdge_def)
  let ?am = "AList.update v1 (List.insert v2 n1) (adjacencyMap g)"
  from assms(1) n1 obtain m where m: "map_of ?am v2 = Some m"
    by (cases "map_of ?am v2") (simp_all add: addEdge_def Let_def)
  from assms(1) n1 m have "adjacencyMap g' = AList.update v2 (List.insert v1 m) ?am"
    by (auto simp: addEdge_def Let_def)
  with assms(2) show ?thesis by (simp add: distinct_update)
qed

lemma addEdge_wf:
  assumes "addEdge g v1 v2 = Inr g'" and "wfGraph g"
  shows "wfGraph g'" and "vertices g' = vertices g"
    and "dom (map_of (adjacencyMap g')) = dom (map_of (adjacencyMap g))"
proof -
  obtain n1 n2 where
    n: "map_of (adjacencyMap g) v1 = Some n1" "map_of (adjacencyMap g) v2 = Some n2"
    and m: "map_of (adjacencyMap g') =
       (map_of (adjacencyMap g))(v1 \<mapsto> List.insert v2 n1,
          v2 \<mapsto> List.insert v1 (if v2 = v1 then List.insert v2 n1 else n2))"
    by (rule addEdge_map_of [OF assms(1)])
  let ?D = "dom (map_of (adjacencyMap g))"
  show v: "vertices g' = vertices g" by (rule addEdge_Inr_dom(4) [OF assms(1)])
  show d: "dom (map_of (adjacencyMap g')) = ?D" by (rule addEdge_Inr_dom(1) [OF assms(1)])
  from n have k: "v1 \<in> ?D" "v2 \<in> ?D" by auto
  note w = wfGraph_closed [OF assms(2)]
  from assms(2) have "distinct (map fst (adjacencyMap g))" by (rule wfGraph_distinct(2))
  with assms(1) have dk: "distinct (map fst (adjacencyMap g'))"
    by (rule addEdge_distinct_keys)
  have i1: "distinct (List.insert v2 n1) \<and> set (List.insert v2 n1) \<subseteq> ?D"
    using w [OF n(1)] k by simp
  have i2: "distinct (List.insert v1 (if v2 = v1 then List.insert v2 n1 else n2)) \<and>
            set (List.insert v1 (if v2 = v1 then List.insert v2 n1 else n2)) \<subseteq> ?D"
    using w [OF n(1)] w [OF n(2)] k by simp
  have cl: "distinct ns \<and> set ns \<subseteq> ?D" if "map_of (adjacencyMap g') u = Some ns" for u ns
  proof (cases "u = v2")
    case True
    with that m i2 show ?thesis by simp
  next
    case False
    show ?thesis
    proof (cases "u = v1")
      case True
      with that m i1 \<open>u \<noteq> v2\<close> show ?thesis by simp
    next
      case False
      with that m \<open>u \<noteq> v2\<close> have "map_of (adjacencyMap g) u = Some ns" by simp
      then show ?thesis by (rule w)
    qed
  qed
  from cl d have cl': "\<forall>u ns. map_of (adjacencyMap g') u = Some ns \<longrightarrow>
      distinct ns \<and> set ns \<subseteq> dom (map_of (adjacencyMap g'))" by blast
  from assms(2) have "distinct (vertices g)" "set (vertices g) = ?D"
    by (simp_all add: wfGraph_distinct(1) wfGraph_keys)
  with v d have "distinct (vertices g')" "set (vertices g') = dom (map_of (adjacencyMap g'))"
    by simp_all
  with dk cl' show "wfGraph g'"
    unfolding wfGraph_def by blast
qed

lemma edgesFrom_wf:
  "wfGraph g \<Longrightarrow> v1 \<in> dom (map_of (adjacencyMap g)) \<Longrightarrow> set vs \<subseteq> dom (map_of (adjacencyMap g)) \<Longrightarrow>
   \<exists>g'. edgesFrom g v1 vs = Inr g' \<and> wfGraph g' \<and> vertices g' = vertices g \<and>
        dom (map_of (adjacencyMap g')) = dom (map_of (adjacencyMap g))"
proof (induction vs arbitrary: g)
  case Nil
  then show ?case by simp
next
  case (Cons v2 vs)
  from Cons.prems have "v2 \<in> dom (map_of (adjacencyMap g))" by simp
  from addEdge_returns [OF Cons.prems(2) this] obtain g1 where g1: "addEdge g v1 v2 = Inr g1" ..
  note w = addEdge_wf [OF g1 Cons.prems(1)]
  from Cons.prems w have "v1 \<in> dom (map_of (adjacencyMap g1))"
    "set vs \<subseteq> dom (map_of (adjacencyMap g1))" by simp_all
  from Cons.IH [OF w(1) this] g1 w show ?case by auto
qed

lemma edgesAmong_wf:
  "wfGraph g \<Longrightarrow> set vs \<subseteq> dom (map_of (adjacencyMap g)) \<Longrightarrow>
   \<exists>g'. edgesAmong g vs = Inr g' \<and> wfGraph g' \<and> vertices g' = vertices g \<and>
        dom (map_of (adjacencyMap g')) = dom (map_of (adjacencyMap g))"
proof (induction vs arbitrary: g)
  case Nil
  then show ?case by simp
next
  case (Cons v1 vs)
  from Cons.prems have "v1 \<in> dom (map_of (adjacencyMap g))"
    "set vs \<subseteq> dom (map_of (adjacencyMap g))" by simp_all
  from edgesFrom_wf [OF Cons.prems(1) this] obtain g1 where
    g1: "edgesFrom g v1 vs = Inr g1" "wfGraph g1" "vertices g1 = vertices g"
      "dom (map_of (adjacencyMap g1)) = dom (map_of (adjacencyMap g))" by blast
  from Cons.prems g1 have "set vs \<subseteq> dom (map_of (adjacencyMap g1))" by simp
  from Cons.IH [OF g1(2) this] g1 show ?case by auto
qed

lemma fillInEdges_wf:
  assumes "wfGraph g" and "v \<in> set (vertices g)"
  shows "\<exists>g'. fillInEdges g v = Inr g' \<and> wfGraph g' \<and> vertices g' = vertices g"
proof -
  from assms wfGraph_keys [OF assms(1)] obtain ns where ns: "map_of (adjacencyMap g) v = Some ns"
    by auto
  from wfGraph_closed [OF assms(1) ns] have "set ns \<subseteq> dom (map_of (adjacencyMap g))" by simp
  from edgesAmong_wf [OF assms(1) this] obtain g' where
    "edgesAmong g ns = Inr g'" "wfGraph g'" "vertices g' = vertices g"
    by (elim exE conjE)
  with ns show ?thesis by (simp add: fillInEdges_def)
qed

lemma removeVertex_wf:
  assumes "wfGraph g"
  shows "wfGraph (removeVertex g v)"
proof -
  have dv: "distinct (vertices (removeVertex g v))"
    using wfGraph_distinct(1) [OF assms] by (simp add: removeVertex_def distinct_removeAll)
  have "map fst (adjacencyMap (removeVertex g v)) = map fst (AList.delete v (adjacencyMap g))"
    unfolding removeVertex_def by (induction "AList.delete v (adjacencyMap g)") auto
  then have dk: "distinct (map fst (adjacencyMap (removeVertex g v)))"
    using wfGraph_distinct(2) [OF assms] by (simp add: distinct_delete)
  have vs: "set (vertices (removeVertex g v)) = dom (map_of (adjacencyMap (removeVertex g v)))"
    using wfGraph_keys [OF assms] by (simp add: removeVertex_dom removeVertex_vertices)
  have cl: "distinct ns \<and> set ns \<subseteq> dom (map_of (adjacencyMap (removeVertex g v)))"
    if "map_of (adjacencyMap (removeVertex g v)) u = Some ns" for u ns
  proof -
    from that obtain ms where ms: "map_of (adjacencyMap g) u = Some ms" "ns = removeAll v ms"
      by (auto simp: map_of_removeVertex split: if_splits)
    with wfGraph_closed [OF assms, of u ms] have "distinct ms" "set ms \<subseteq> dom (map_of (adjacencyMap g))"
      by simp_all
    with ms show ?thesis by (auto simp: removeVertex_dom distinct_removeAll)
  qed
  from cl have "\<forall>u ns. map_of (adjacencyMap (removeVertex g v)) u = Some ns \<longrightarrow>
      distinct ns \<and> set ns \<subseteq> dom (map_of (adjacencyMap (removeVertex g v)))" by blast
  with dv dk vs show ?thesis unfolding wfGraph_def by blast
qed

subsection \<open>Minfill order\<close>

lemma isNeighbor_returns:
  "u \<in> dom (map_of (adjacencyMap g)) \<Longrightarrow> \<exists>b. isNeighbor g u x = Inr b"
  by (auto simp: isNeighbor_def)

lemma countFrom_bound:
  "n1 \<in> dom (map_of (adjacencyMap g)) \<Longrightarrow>
   \<exists>c'. countFrom g n1 ns c = Inr c' \<and> c \<le> c' \<and> c' \<le> c + int (length ns)"
proof (induction ns arbitrary: c)
  case Nil
  then show ?case by simp
next
  case (Cons n2 ns)
  from isNeighbor_returns [OF Cons.prems] obtain b where b: "isNeighbor g n1 n2 = Inr b" ..
  from Cons.IH [OF Cons.prems, of "if \<not> b then c + 1 else c"] obtain c' where
    "countFrom g n1 ns (if \<not> b then c + 1 else c) = Inr c'"
    "(if \<not> b then c + 1 else c) \<le> c'" "c' \<le> (if \<not> b then c + 1 else c) + int (length ns)"
    by (elim exE conjE)
  with b show ?case by (auto split: if_splits)
qed

lemma countAmong_bound:
  "set ns \<subseteq> dom (map_of (adjacencyMap g)) \<Longrightarrow>
   \<exists>c'. countAmong g ns c = Inr c' \<and> c \<le> c' \<and> c' \<le> c + int (length ns) * int (length ns)"
proof (induction ns arbitrary: c)
  case Nil
  then show ?case by simp
next
  case (Cons n1 ns)
  from Cons.prems have k: "n1 \<in> dom (map_of (adjacencyMap g))"
    "set ns \<subseteq> dom (map_of (adjacencyMap g))" by simp_all
  from countFrom_bound [OF k(1), of ns c] obtain c1 where
    c1: "countFrom g n1 ns c = Inr c1" "c \<le> c1" "c1 \<le> c + int (length ns)"
    by (elim exE conjE)
  from Cons.IH [OF k(2), of c1] obtain c' where
    c': "countAmong g ns c1 = Inr c'" "c1 \<le> c'" "c' \<le> c1 + int (length ns) * int (length ns)"
    by (elim exE conjE)
  have "c1 + int (length ns) * int (length ns) \<le> c + int (length (n1 # ns)) * int (length (n1 # ns))"
    using c1(3) by (simp add: algebra_simps)
  with c1 c' show ?case by simp
qed

lemma wfGraph_sizes:
  assumes "wfGraph g"
  shows "length (adjacencyMap g) = length (vertices g)"
    and "map_of (adjacencyMap g) u = Some ns \<Longrightarrow> length ns \<le> length (vertices g)"
proof -
  have "card (set (vertices g)) = length (vertices g)"
    using wfGraph_distinct(1) [OF assms] by (rule distinct_card)
  moreover have "card (fst ` set (adjacencyMap g)) = length (adjacencyMap g)"
    using wfGraph_distinct(2) [OF assms] distinct_card [of "map fst (adjacencyMap g)"] by simp
  moreover have "set (vertices g) = fst ` set (adjacencyMap g)"
    using wfGraph_keys [OF assms] by (simp add: dom_map_of_conv_image_fst)
  ultimately show l: "length (adjacencyMap g) = length (vertices g)" by simp
  assume "map_of (adjacencyMap g) u = Some ns"
  from wfGraph_closed [OF assms this] wfGraph_keys [OF assms]
  have "distinct ns" "set ns \<subseteq> set (vertices g)" by simp_all
  then have "length ns = card (set ns)" "card (set ns) \<le> card (set (vertices g))"
    using card_mono [of "set (vertices g)" "set ns"] by (simp_all add: distinct_card)
  with \<open>card (set (vertices g)) = length (vertices g)\<close>
  show "length ns \<le> length (vertices g)" by simp
qed

lemma countFillInEdges_bound:
  assumes "wfGraph g" and "v \<in> set (vertices g)"
  shows "\<exists>c. countFillInEdges g v = Inr c \<and> c \<le> int (length (vertices g)) * int (length (vertices g))"
proof -
  from assms wfGraph_keys [OF assms(1)] obtain ns where ns: "map_of (adjacencyMap g) v = Some ns"
    by auto
  from wfGraph_closed [OF assms(1) ns] have "set ns \<subseteq> dom (map_of (adjacencyMap g))" by simp
  from countAmong_bound [OF this, of 0] obtain c where
    c: "countAmong g ns 0 = Inr c" "c \<le> int (length ns) * int (length ns)"
    by auto
  from wfGraph_sizes(2) [OF assms(1) ns]
  have "int (length ns) * int (length ns) \<le> int (length (vertices g)) * int (length (vertices g))"
    by (intro mult_mono) simp_all
  with c ns show ?thesis by (simp add: countFillInEdges_def)
qed

lemma minfillScan_returns:
  assumes "wfGraph g" and "set vs \<subseteq> set (vertices g)"
    and "int (length (vertices g)) * int (length (vertices g)) < mx"
  shows "\<exists>v' c'. minfillScan g vs vertex cnt = Inr (v', c') \<and> c' \<le> cnt \<and>
           (vs \<noteq> [] \<and> cnt = mx \<longrightarrow> v' \<in> set vs) \<and> (v' = vertex \<or> v' \<in> set vs)"
  using assms(2)
proof (induction vs arbitrary: vertex cnt)
  case Nil
  then show ?case by simp
next
  case (Cons v vs)
  from Cons.prems have v: "v \<in> set (vertices g)" and vs: "set vs \<subseteq> set (vertices g)" by simp_all
  from countFillInEdges_bound [OF assms(1) v] assms(3) obtain count where
    c: "countFillInEdges g v = Inr count" "count < mx" by auto
  show ?case
  proof (cases "count < cnt")
    case True
    from Cons.IH [OF vs, of v count] obtain v' c' where
      r: "minfillScan g vs v count = Inr (v', c')" "c' \<le> count" "v' = v \<or> v' \<in> set vs"
      by auto
    with c True show ?thesis by auto
  next
    case False
    from Cons.IH [OF vs, of vertex cnt] obtain v' c' where
      r: "minfillScan g vs vertex cnt = Inr (v', c')" "c' \<le> cnt" "v' = vertex \<or> v' \<in> set vs"
      by auto
    with c False show ?thesis by auto
  qed
qed

lemma getMinfillVertex_returns:
  assumes "wfGraph g" and "vertices g \<noteq> []" and "mn \<notin> set (vertices g)"
    and "int (length (vertices g)) * int (length (vertices g)) < mx"
  shows "\<exists>v. getMinfillVertex mn mx g = Inr v"
proof -
  from minfillScan_returns [OF assms(1) subset_refl assms(4), of mn mx] assms(2)
  obtain v' c' where "minfillScan g (vertices g) mn mx = Inr (v', c')" "v' \<in> set (vertices g)"
    by auto
  with assms(3) show ?thesis by (auto simp: getMinfillVertex_def)
qed

lemma minfillLoop_permutation:
  assumes "wfGraph g" and "mn \<notin> set (vertices g)"
    and "int (length (vertices g)) * int (length (vertices g)) < mx"
  shows "\<exists>rest. minfillLoop mn mx g acc = Inr (acc @ rest) \<and> distinct rest \<and>
           set rest = set (vertices g)"
  using assms
proof (induction "length (vertices g)" arbitrary: g acc rule: less_induct)
  case less
  note eq = minfillLoop.simps [of mn mx g acc]
  show ?case
  proof (cases "vertices g = []")
    case True
    with eq show ?thesis by simp
  next
    case False
    from getMinfillVertex_returns [OF less.prems(1) False less.prems(2,3)]
    obtain v where v: "getMinfillVertex mn mx g = Inr v" ..
    from getMinfillVertex_member [OF v] have vm: "v \<in> set (vertices g)" .
    from fillInEdges_wf [OF less.prems(1) vm] obtain g1 where
      g1: "fillInEdges g v = Inr g1" "wfGraph g1" "vertices g1 = vertices g"
      by (elim exE conjE)
    let ?g2 = "removeVertex g1 v"
    have vs2: "vertices ?g2 = removeAll v (vertices g)"
      using g1(3) by (simp add: removeVertex_def)
    have len: "length (vertices ?g2) < length (vertices g)"
      using vm by (simp add: vs2 length_removeAll_less)
    have w2: "wfGraph ?g2" by (rule removeVertex_wf [OF g1(2)])
    have mn2: "mn \<notin> set (vertices ?g2)" using less.prems(2) by (simp add: vs2)
    have "int (length (vertices ?g2)) * int (length (vertices ?g2))
          \<le> int (length (vertices g)) * int (length (vertices g))"
      using len by (intro mult_mono) simp_all
    with less.prems(3) have b2: "int (length (vertices ?g2)) * int (length (vertices ?g2)) < mx"
      by simp
    from less.hyps [OF len w2 mn2 b2, of "acc @ [v]"] obtain rest where
      rest: "minfillLoop mn mx ?g2 (acc @ [v]) = Inr ((acc @ [v]) @ rest)" "distinct rest"
        "set rest = set (vertices ?g2)"
      by (elim exE conjE)
    have "minfillLoop mn mx g acc = Inr (acc @ v # rest)"
      using eq False v g1(1) rest(1) by simp
    moreover have "distinct (v # rest)" using rest(2,3) by (simp add: vs2)
    moreover have "set (v # rest) = set (vertices g)" using rest(3) vm by (auto simp: vs2)
    ultimately show ?thesis by blast
  qed
qed

subsection \<open>Primal graph\<close>

lemma clausesEdges_wf:
  "wfGraph g \<Longrightarrow> \<forall>c\<in>set cs. \<forall>l\<in>set c. \<bar>l\<bar> \<in> set (vertices g) \<Longrightarrow>
   \<exists>g'. clausesEdges g cs = Inr g' \<and> wfGraph g' \<and> vertices g' = vertices g"
proof (induction cs arbitrary: g)
  case Nil
  then show ?case by simp
next
  case (Cons c cs)
  from Cons.prems have "set (map abs c) \<subseteq> dom (map_of (adjacencyMap g))"
    using wfGraph_keys [OF Cons.prems(1)] by auto
  from edgesAmong_wf [OF Cons.prems(1) this] obtain g1 where
    g1: "edgesAmong g (map abs c) = Inr g1" "wfGraph g1" "vertices g1 = vertices g"
    by (elim exE conjE)
  from Cons.prems(2) g1(3) have "\<forall>c\<in>set cs. \<forall>l\<in>set c. \<bar>l\<bar> \<in> set (vertices g1)" by simp
  from Cons.IH [OF g1(2) this] obtain g' where
    "clausesEdges g1 cs = Inr g'" "wfGraph g'" "vertices g' = vertices g1"
    by (elim exE conjE)
  with g1 show ?case by simp
qed

lemma getPrimalGraph_wf:
  assumes "\<forall>c\<in>set (clauses cnf). \<forall>l\<in>set c. \<bar>l\<bar> \<in> set (apparentVars cnf)"
  shows "\<exists>g. getPrimalGraph cnf = Inr g \<and> wfGraph g \<and> set (vertices g) = set (apparentVars cnf)"
proof -
  let ?g0 = "newGraph (apparentVars cnf)"
  from assms have "\<forall>c\<in>set (clauses cnf). \<forall>l\<in>set c. \<bar>l\<bar> \<in> set (vertices ?g0)"
    by (simp add: wfGraph_newGraph(2))
  from clausesEdges_wf [OF wfGraph_newGraph(1) this] obtain g where
    "clausesEdges ?g0 (clauses cnf) = Inr g" "wfGraph g" "vertices g = vertices ?g0"
    by (elim exE conjE)
  then show ?thesis by (simp add: getPrimalGraph_def wfGraph_newGraph(2))
qed

subsection \<open>Maximum-cardinality search\<close>

lemma set_update_cases: "e \<in> set (AList.update k v al) \<Longrightarrow> e \<in> set al \<or> e = (k, v)"
  by (induction al) (auto split: if_splits)

lemma set_delete_member: "e \<in> set (AList.delete k al) \<Longrightarrow> e \<in> set al"
  by (simp add: AList.delete_eq)

lemma keys_delete: "fst ` set (AList.delete k al) = fst ` set al - {k}"
proof -
  have "fst ` set (AList.delete k al) = set (map fst (AList.delete k al))" by simp
  also have "\<dots> = set (removeAll k (map fst al))" by (simp only: delete_keys)
  also have "\<dots> = fst ` set al - {k}" by simp
  finally show ?thesis .
qed

lemma bumpCounts_values:
  "\<forall>e\<in>set counts. mn < snd e \<Longrightarrow> \<forall>e\<in>set (bumpCounts ns counts). mn < snd e"
proof (induction ns arbitrary: counts)
  case Nil
  then show ?case by simp
next
  case (Cons n ns)
  show ?case
  proof (cases "map_of counts n")
    case None
    with Cons show ?thesis by simp
  next
    case (Some c)
    from map_of_SomeD [OF Some] Cons.prems have "mn < c" by force
    have "\<forall>e\<in>set (AList.update n (c + 1) counts). mn < snd e"
    proof
      fix e assume "e \<in> set (AList.update n (c + 1) counts)"
      then have "e \<in> set counts \<or> e = (n, c + 1)"
        by (rule set_update_cases)
      with Cons.prems \<open>mn < c\<close> show "mn < snd e" by auto
    qed
    from Cons.IH [OF this] Some show ?thesis by simp
  qed
qed

lemma mcsLoop_permutation:
  assumes "distinct (map fst counts)"
    and "bestVertex \<in> dom (map_of (adjacencyMap g))"
    and "fst ` set counts \<subseteq> dom (map_of (adjacencyMap g))"
    and "bestVertex \<notin> set acc" and "set acc \<inter> fst ` set counts = {}"
    and "\<forall>e\<in>set counts. mn < snd e"
  shows "\<exists>rest. mcsLoop mn g bestVertex counts acc = Inr (acc @ rest) \<and> distinct rest \<and>
           set rest = insert bestVertex (fst ` set counts)"
  using assms
proof (induction "length (AList.delete bestVertex counts)" arbitrary: bestVertex counts acc
    rule: less_induct)
  case less
  note eq = mcsLoop.simps [of mn g bestVertex counts acc]
  from less.prems(2) obtain ns where ns: "map_of (adjacencyMap g) bestVertex = Some ns" by auto
  define counts1 where "counts1 = AList.delete bestVertex counts"
  define counts2 where "counts2 = bumpCounts ns counts1"
  define best where "best = selectBest counts2 mn bestVertex"
  have k1: "fst ` set counts1 = fst ` set counts - {bestVertex}"
    by (simp add: counts1_def keys_delete)
  have k2: "map fst counts2 = map fst counts1" by (simp add: counts2_def bumpCounts_keys)
  have k2s: "fst ` set counts2 = fst ` set counts1"
  proof -
    have "fst ` set counts2 = set (map fst counts2)" by simp
    also have "\<dots> = set (map fst counts1)" by (simp only: k2)
    finally show ?thesis by simp
  qed
  have d2: "distinct (map fst counts2)"
    using less.prems(1) by (simp add: k2 counts1_def distinct_delete)
  have "\<forall>e\<in>set counts1. mn < snd e"
    using less.prems(6) set_delete_member [of _ bestVertex counts] by (auto simp: counts1_def)
  then have v2: "\<forall>e\<in>set counts2. mn < snd e"
    unfolding counts2_def by (rule bumpCounts_values)
  have sb: "selectBest counts2 mn bestVertex = (fst best, snd best)" by (simp add: best_def)
  note sel = selectBest_result [OF sb]
  have step: "mcsLoop mn g bestVertex counts acc =
      (if fst best \<noteq> mn then mcsLoop mn g (snd best) counts2 (acc @ [bestVertex])
       else Inr (acc @ [bestVertex]))"
    using eq ns by (simp add: Let_def counts1_def counts2_def best_def)
  show ?case
  proof (cases "counts2 = []")
    case True
    then have "fst best = mn" by (simp add: best_def)
    moreover from True k2s k1 have "fst ` set counts \<subseteq> {bestVertex}" by auto
    ultimately show ?thesis using step by auto
  next
    case False
    then obtain e where "e \<in> set counts2" by (cases counts2) auto
    with v2 have "\<exists>e\<in>set counts2. mn < snd e" by blast
    with sel have "mn < fst best" by blast
    then have nb: "fst best \<noteq> mn" by simp
    with sel have mem: "(snd best, fst best) \<in> set counts2" by auto
    from mem have bk: "snd best \<in> fst ` set counts2" by force
    have len: "length (AList.delete (snd best) counts2) < length (AList.delete bestVertex counts)"
      using length_delete_less [OF bk] arg_cong [OF k2, of length] by (simp add: counts1_def)
    have p2: "snd best \<in> dom (map_of (adjacencyMap g))"
      and p3: "fst ` set counts2 \<subseteq> dom (map_of (adjacencyMap g))"
      using bk k2s k1 less.prems(3) by auto
    have p4: "snd best \<notin> set (acc @ [bestVertex])"
      and p5: "set (acc @ [bestVertex]) \<inter> fst ` set counts2 = {}"
      using bk k2s k1 less.prems(4,5) by auto
    from less.hyps [OF len d2 p2 p3 p4 p5 v2] obtain rest where
      rest: "mcsLoop mn g (snd best) counts2 (acc @ [bestVertex]) = Inr ((acc @ [bestVertex]) @ rest)"
        "distinct rest" "set rest = insert (snd best) (fst ` set counts2)"
      by (elim exE conjE)
    have "mcsLoop mn g bestVertex counts acc = Inr (acc @ bestVertex # rest)"
      using step nb rest(1) by simp
    moreover have "distinct (bestVertex # rest)"
      using rest(2,3) bk k2s k1 by auto
    moreover have "set (bestVertex # rest) = insert bestVertex (fst ` set counts)"
      using rest(3) bk k2s k1 by auto
    ultimately show ?thesis by blast
  qed
qed

lemma zeroCounts:
  fixes m :: "(int \<times> int) list"
  shows "distinct (map fst m) \<Longrightarrow> \<forall>e\<in>set m. snd e = 0 \<Longrightarrow>
   distinct (map fst (foldl (\<lambda>m v. AList.update v 0 m) m vs)) \<and>
   fst ` set (foldl (\<lambda>m v. AList.update v 0 m) m vs) = fst ` set m \<union> set vs \<and>
   (\<forall>e\<in>set (foldl (\<lambda>m v. AList.update v 0 m) m vs). snd e = 0)"
proof (induction vs arbitrary: m)
  case Nil
  then show ?case by simp
next
  case (Cons v vs)
  have z: "\<forall>e\<in>set (AList.update v 0 m). snd e = 0"
  proof
    fix e assume "e \<in> set (AList.update v 0 m)"
    then have "e \<in> set m \<or> e = (v, 0)"
      by (rule set_update_cases)
    with Cons.prems(2) show "snd e = 0" by auto
  qed
  from Cons.prems have "distinct (map fst (AList.update v 0 m))"
    by (simp add: distinct_update)
  from Cons.IH [OF this z] show ?case
    by (auto simp: dom_update)
qed

lemma getMcsVarOrder_permutation:
  assumes "\<forall>c\<in>set (clauses cnf). \<forall>l\<in>set c. \<bar>l\<bar> \<in> set (apparentVars cnf)" and "mn < 0"
  shows "\<exists>order. getMcsVarOrder mn cnf = Inr order \<and> distinct order \<and>
           set order = set (apparentVars cnf)"
proof -
  from getPrimalGraph_wf [OF assms(1)] obtain g where
    g: "getPrimalGraph cnf = Inr g" "wfGraph g" "set (vertices g) = set (apparentVars cnf)"
    by (elim exE conjE)
  show ?thesis
  proof (cases "vertices g")
    case Nil
    with g show ?thesis by (simp add: getMcsVarOrder_def)
  next
    case (Cons start rest)
    let ?m = "foldl (\<lambda>m v. AList.update v 0 m) ([] :: (int \<times> int) list) rest"
    from wfGraph_distinct(1) [OF g(2)] Cons have d: "distinct rest" "start \<notin> set rest" by simp_all
    from zeroCounts [of "[]" rest] have m: "distinct (map fst ?m)" "fst ` set ?m = set rest"
      "\<forall>e\<in>set ?m. snd e = 0" by simp_all
    from wfGraph_keys [OF g(2)] Cons have k: "start \<in> dom (map_of (adjacencyMap g))"
      "fst ` set ?m \<subseteq> dom (map_of (adjacencyMap g))" by (auto simp: m(2))
    from m(3) assms(2) have v: "\<forall>e\<in>set ?m. mn < snd e" by simp
    from mcsLoop_permutation [OF m(1) k _ _ v, of "[]"] obtain order where
      "mcsLoop mn g start ?m [] = Inr order" "distinct order" "set order = insert start (set rest)"
      by (auto simp: m(2))
    with g Cons show ?thesis by (auto simp: getMcsVarOrder_def)
  qed
qed

lemma getMinfillVarOrder_permutation:
  assumes "\<forall>c\<in>set (clauses cnf). \<forall>l\<in>set c. \<bar>l\<bar> \<in> set (apparentVars cnf)"
    and "mn \<notin> set (apparentVars cnf)"
    and "int (length (apparentVars cnf)) * int (length (apparentVars cnf)) < mx"
  shows "\<exists>order. getMinfillVarOrder mn mx cnf = Inr order \<and> distinct order \<and>
           set order = set (apparentVars cnf)"
proof -
  from getPrimalGraph_wf [OF assms(1)] obtain g where
    g: "getPrimalGraph cnf = Inr g" "wfGraph g" "set (vertices g) = set (apparentVars cnf)"
    by (elim exE conjE)
  have "length (vertices g) = card (set (vertices g))"
    using wfGraph_distinct(1) [OF g(2)] by (simp add: distinct_card)
  also have "\<dots> \<le> length (apparentVars cnf)" unfolding g(3) by (rule card_length)
  finally have "int (length (vertices g)) * int (length (vertices g))
      \<le> int (length (apparentVars cnf)) * int (length (apparentVars cnf))"
    by (intro mult_mono) simp_all
  with assms(3) have b: "int (length (vertices g)) * int (length (vertices g)) < mx" by simp
  from assms(2) g(3) have "mn \<notin> set (vertices g)" by simp
  from minfillLoop_permutation [OF g(2) this b, of "[]"] g show ?thesis
    by (auto simp: getMinfillVarOrder_def)
qed

subsection \<open>The search for a path returns\<close>

lemma hasPathLoop_total:
  assumes H: "\<forall>from visited. from \<in> K \<and> from \<notin> S \<and> S \<subseteq> set visited \<longrightarrow>
      (\<exists>b vis. hasPath3 n g from to visited = Some (Inr (b, vis)) \<and> set visited \<subseteq> set vis)"
  shows "set us \<subseteq> K \<Longrightarrow> set us \<inter> S = {} \<Longrightarrow> S \<subseteq> set visited \<Longrightarrow>
      \<exists>b vis. hasPathLoop n g us to visited = Some (Inr (b, vis)) \<and> set visited \<subseteq> set vis"
proof (induction us arbitrary: visited)
  case Nil
  have "hasPathLoop n g [] to visited = Some (Inr (False, visited))" by simp
  then show ?case by blast
next
  case (Cons u us)
  from Cons.prems have u: "u \<in> K" "u \<notin> S" and us: "set us \<subseteq> K" "set us \<inter> S = {}" by auto
  from H u Cons.prems(3) obtain b vis where
    r: "hasPath3 n g u to visited = Some (Inr (b, vis))" "set visited \<subseteq> set vis"
    by blast
  show ?case
  proof (cases b)
    case True
    with r(1) have "hasPathLoop n g (u # us) to visited = Some (Inr (True, vis))" by simp
    with r(2) show ?thesis by blast
  next
    case False
    from Cons.prems(3) r(2) have "S \<subseteq> set vis" by simp
    from Cons.IH [OF us this] obtain b' vis' where
      l: "hasPathLoop n g us to vis = Some (Inr (b', vis'))" "set vis \<subseteq> set vis'"
      by (elim exE conjE)
    from r(1) False l(1) have "hasPathLoop n g (u # us) to visited = Some (Inr (b', vis'))"
      by simp
    moreover from r(2) l(2) have "set visited \<subseteq> set vis'" by simp
    ultimately show ?thesis by blast
  qed
qed

lemma hasPath3_total:
  assumes closed: "\<forall>u ns. map_of (adjacencyMap g) u = Some ns \<longrightarrow>
      set ns \<subseteq> dom (map_of (adjacencyMap g))"
  shows "from \<in> dom (map_of (adjacencyMap g)) \<Longrightarrow> from \<notin> S \<Longrightarrow> S \<subseteq> set visited \<Longrightarrow>
     S \<subseteq> dom (map_of (adjacencyMap g)) \<Longrightarrow> card (dom (map_of (adjacencyMap g)) - S) < n \<Longrightarrow>
     \<exists>b vis. hasPath3 n g from to visited = Some (Inr (b, vis)) \<and> set visited \<subseteq> set vis"
proof (induction n arbitrary: "from" S visited)
  case 0
  then show ?case by simp
next
  case (Suc n)
  let ?K = "dom (map_of (adjacencyMap g))"
  show ?case
  proof (cases "from = to")
    case True
    then have "hasPath3 (Suc n) g from to visited = Some (Inr (True, visited))" by simp
    then show ?thesis by blast
  next
    case False
    from Suc.prems(1) obtain ns where ns: "map_of (adjacencyMap g) from = Some ns" by auto
    let ?vis1 = "List.insert from visited"
    let ?S1 = "insert from S"
    have fin: "finite ?K" by (rule finite_dom_map_of)
    have "?K - ?S1 \<subset> ?K - S" using Suc.prems(1,2) by auto
    then have "card (?K - ?S1) < card (?K - S)"
      using fin by (intro psubset_card_mono) auto
    with Suc.prems(5) have c1: "card (?K - ?S1) < n" by simp
    have s1: "?S1 \<subseteq> set ?vis1" "?S1 \<subseteq> ?K" using Suc.prems(1,3,4) by auto
    have H: "\<forall>u vs. u \<in> ?K \<and> u \<notin> ?S1 \<and> ?S1 \<subseteq> set vs \<longrightarrow>
        (\<exists>b vis. hasPath3 n g u to vs = Some (Inr (b, vis)) \<and> set vs \<subseteq> set vis)"
    proof (intro allI impI)
      fix u vs assume "u \<in> ?K \<and> u \<notin> ?S1 \<and> ?S1 \<subseteq> set vs"
      then have a: "u \<in> ?K" "u \<notin> ?S1" "?S1 \<subseteq> set vs" by simp_all
      show "\<exists>b vis. hasPath3 n g u to vs = Some (Inr (b, vis)) \<and> set vs \<subseteq> set vis"
        by (rule Suc.IH [OF a s1(2) c1])
    qed
    from closed ns have "set ns \<subseteq> ?K" by blast
    then have u1: "set (getDiff ns ?vis1) \<subseteq> ?K" by (auto simp: getDiff_def)
    have u2: "set (getDiff ns ?vis1) \<inter> ?S1 = {}" using s1(1) by (auto simp: getDiff_def)
    from hasPathLoop_total [OF H u1 u2 s1(1)] obtain b vis where
      l: "hasPathLoop n g (getDiff ns ?vis1) to ?vis1 = Some (Inr (b, vis))" "set ?vis1 \<subseteq> set vis"
      by (elim exE conjE)
    from False ns l(1) have "hasPath3 (Suc n) g from to visited = Some (Inr (b, vis))"
      by (simp add: Let_def)
    moreover from l(2) have "set visited \<subseteq> set vis" by auto
    ultimately show ?thesis by blast
  qed
qed

lemma hasPath_returns:
  assumes "wfGraph g" and "from \<in> dom (map_of (adjacencyMap g))"
  shows "\<exists>b. hasPath g from to = Some (Inr b)"
proof -
  let ?K = "dom (map_of (adjacencyMap g))"
  have "card ?K \<le> length (adjacencyMap g)"
    using card_image_le [of "set (adjacencyMap g)" fst] card_length [of "adjacencyMap g"]
    by (simp add: dom_map_of_conv_image_fst)
  then have c: "card (?K - {}) < Suc (length (adjacencyMap g))" by simp
  have closed: "\<forall>u ns. map_of (adjacencyMap g) u = Some ns \<longrightarrow> set ns \<subseteq> ?K"
    using wfGraph_closed [OF assms(1)] by blast
  have e: "from \<notin> {}" "{} \<subseteq> set ([] :: int list)" "{} \<subseteq> ?K" by simp_all
  from hasPath3_total [OF closed assms(2) e c, where to = to] obtain b vis where
    "hasPath3 (Suc (length (adjacencyMap g))) g from to [] = Some (Inr (b, vis))"
    by (elim exE conjE)
  then have "hasPath g from to = Some (Inr b)" by (simp add: hasPath_def)
  then show ?thesis ..
qed

subsection \<open>Lexicographic search\<close>

lemma maxElementFrom_member: "maxElementFrom e rest \<in> set (e # rest)"
proof (induction rest arbitrary: e)
  case Nil
  then show ?case by simp
next
  case (Cons x rest)
  show ?case
  proof (cases "hasSmallerLabel e x")
    case True
    with Cons.IH [of x] show ?thesis by auto
  next
    case False
    with Cons.IH [of e] show ?thesis by auto
  qed
qed

lemma max_element_member:
  assumes "entries \<noteq> []"
  shows "\<exists>e. max_element entries = Some e \<and> e \<in> set entries"
proof (cases entries)
  case Nil
  with assms show ?thesis by simp
next
  case (Cons x rest)
  with maxElementFrom_member [of x rest] show ?thesis by (simp add: max_element_def)
qed

lemma update_present_keys:
  assumes "map_of al k = Some v"
  shows "map fst (AList.update k w al) = map fst al"
proof -
  from assms have "(k, v) \<in> set al" by (rule map_of_SomeD)
  then have "k \<in> fst ` set al" by force
  then show ?thesis by (simp add: update_keys)
qed

lemma labelNeighbors_keys: "map fst (labelNeighbors ns number un) = map fst un"
proof (induction ns arbitrary: un)
  case Nil
  then show ?case by simp
next
  case (Cons n ns)
  show ?case
  proof (cases "map_of un n")
    case None
    with Cons.IH [of un] show ?thesis by simp
  next
    case (Some label)
    with Cons.IH [of "AList.update n (addNumber label number) un"] update_present_keys [OF Some]
    show ?thesis by simp
  qed
qed

lemma emptyLabels_fold:
  "distinct vars \<Longrightarrow> set vars \<inter> fst ` set acc = {} \<Longrightarrow>
   map fst (foldl (\<lambda>m vertex. AList.update vertex [] m) acc vars) = map fst acc @ vars"
proof (induction vars arbitrary: acc)
  case Nil
  then show ?case by simp
next
  case (Cons v vars)
  from Cons.prems have v: "v \<notin> fst ` set acc" by auto
  then have k: "map fst (AList.update v [] acc) = map fst acc @ [v]" by (simp add: update_keys)
  then have "fst ` set (AList.update v [] acc) = insert v (fst ` set acc)"
    by (metis (no_types) Un_insert_right list.set(1) list.set(2) set_append set_map sup_bot_right)
  with Cons.prems have "set vars \<inter> fst ` set (AList.update v [] acc) = {}" by auto
  from Cons.IH [OF _ this] Cons.prems(1) k show ?case by simp
qed

lemma emptyLabels_keys: "distinct vars \<Longrightarrow> map fst (emptyLabels vars) = vars"
  using emptyLabels_fold [of vars "[]"] by (simp add: emptyLabels_def)

lemma delete_member_length:
  assumes "distinct (map fst al)" and "e \<in> set al"
  shows "Suc (length (AList.delete (fst e) al)) = length al"
proof -
  have "length (AList.delete (fst e) al) = length (map fst (AList.delete (fst e) al))" by simp
  also have "\<dots> = length (removeAll (fst e) (map fst al))" by (simp only: delete_keys)
  also have "\<dots> = length (remove1 (fst e) (map fst al))"
    using assms(1) by (simp add: distinct_remove1_removeAll)
  also have "\<dots> = length al - 1" using assms(2) by (simp add: length_remove1)
  finally show ?thesis using assms(2) by (cases al) auto
qed

lemma lexpLoop_permutation:
  "distinct (map fst un) \<Longrightarrow> length un = k \<Longrightarrow> fst ` set un \<subseteq> dom (map_of (adjacencyMap g)) \<Longrightarrow>
   \<exists>rest. lexpLoop g k un numbered = Inr (numbered @ rest) \<and> distinct rest \<and>
     set rest = fst ` set un"
proof (induction k arbitrary: un numbered)
  case 0
  then show ?case by simp
next
  case (Suc k)
  from Suc.prems(2) have "un \<noteq> []" by auto
  from max_element_member [OF this] obtain e where
    e: "max_element un = Some e" "e \<in> set un" by (elim exE conjE)
  from e(2) Suc.prems(3) obtain ns where ns: "map_of (adjacencyMap g) (fst e) = Some ns" by auto
  let ?un1 = "labelNeighbors ns (int (Suc k)) (AList.delete (fst e) un)"
  have keys: "map fst ?un1 = removeAll (fst e) (map fst un)"
    by (simp only: labelNeighbors_keys delete_keys)
  have d: "distinct (map fst ?un1)" unfolding keys using Suc.prems(1) by (rule distinct_removeAll)
  have "length ?un1 = length (map fst ?un1)" by simp
  also have "\<dots> = length (AList.delete (fst e) un)" by (simp only: labelNeighbors_keys length_map)
  finally have l: "length ?un1 = k"
    using delete_member_length [OF Suc.prems(1) e(2)] Suc.prems(2) by simp
  have s: "fst ` set ?un1 = fst ` set un - {fst e}"
    using arg_cong [OF keys, of set] by simp
  with Suc.prems(3) have "fst ` set ?un1 \<subseteq> dom (map_of (adjacencyMap g))" by auto
  from Suc.IH [OF d l this, of "numbered @ [fst e]"] obtain rest where
    r: "lexpLoop g k ?un1 (numbered @ [fst e]) = Inr ((numbered @ [fst e]) @ rest)"
      "distinct rest" "set rest = fst ` set ?un1"
    by (elim exE conjE)
  from e(1) ns r(1) have "lexpLoop g (Suc k) un numbered = Inr (numbered @ (fst e # rest))"
    by (simp add: Let_def)
  moreover from r(2,3) s have "distinct (fst e # rest)" by simp
  moreover from r(3) s e(2) have "set (fst e # rest) = fst ` set un" by auto
  ultimately show ?case by blast
qed

lemma getLexpVarOrder_permutation:
  assumes "\<forall>c\<in>set (clauses cnf). \<forall>l\<in>set c. \<bar>l\<bar> \<in> set (apparentVars cnf)"
    and "distinct (apparentVars cnf)"
  shows "\<exists>order. getLexpVarOrder cnf = Inr order \<and> distinct order \<and>
           set order = set (apparentVars cnf)"
proof -
  from getPrimalGraph_wf [OF assms(1)] obtain g where
    g: "getPrimalGraph cnf = Inr g" "wfGraph g" "set (vertices g) = set (apparentVars cnf)"
    by (elim exE conjE)
  let ?un = "emptyLabels (apparentVars cnf)"
  have k: "map fst ?un = apparentVars cnf" by (rule emptyLabels_keys [OF assms(2)])
  then have d: "distinct (map fst ?un)" using assms(2) by simp
  have l: "length ?un = length (apparentVars cnf)" using arg_cong [OF k, of length] by simp
  have s: "fst ` set ?un = set (apparentVars cnf)" using arg_cong [OF k, of set] by simp
  then have "fst ` set ?un \<subseteq> dom (map_of (adjacencyMap g))"
    using g(3) wfGraph_keys [OF g(2)] by simp
  from lexpLoop_permutation [OF d l this, of "[]"] obtain rest where
    "lexpLoop g (length (apparentVars cnf)) ?un [] = Inr ([] @ rest)" "distinct rest"
    "set rest = fst ` set ?un"
    by (elim exE conjE)
  with g(1) s show ?thesis by (simp add: getLexpVarOrder_def)
qed

subsection \<open>Lexicographic search with minimal triangulation\<close>

lemma removeVertices_wf:
  "wfGraph g \<Longrightarrow> v \<in> dom (map_of (adjacencyMap g)) \<Longrightarrow> \<forall>x\<in>set xs. P x \<longrightarrow> f x \<noteq> v \<Longrightarrow>
   wfGraph (foldl (\<lambda>g x. if P x then removeVertex g (f x) else g) g xs) \<and>
   v \<in> dom (map_of (adjacencyMap (foldl (\<lambda>g x. if P x then removeVertex g (f x) else g) g xs)))"
proof (induction xs arbitrary: g)
  case Nil
  then show ?case by simp
next
  case (Cons x xs)
  let ?g1 = "if P x then removeVertex g (f x) else g"
  have w: "wfGraph ?g1" using Cons.prems(1) by (simp add: removeVertex_wf)
  have k: "v \<in> dom (map_of (adjacencyMap ?g1))"
    using Cons.prems(2,3) by (auto simp: removeVertex_dom)
  from Cons.prems(3) have "\<forall>x\<in>set xs. P x \<longrightarrow> f x \<noteq> v" by simp
  from Cons.IH [OF w k this] show ?case by simp
qed

lemma removeNumbered_wf:
  assumes "wfGraph g" and "v \<in> dom (map_of (adjacencyMap g))"
  shows "wfGraph (removeNumbered g v numbered)"
    and "v \<in> dom (map_of (adjacencyMap (removeNumbered g v numbered)))"
  using removeVertices_wf [OF assms, of numbered "\<lambda>x. x \<noteq> v" "\<lambda>x. x"]
  by (simp_all add: removeNumbered_def)

lemma removeLarger_wf:
  assumes "wfGraph g" and "v \<in> dom (map_of (adjacencyMap g))" and "v \<notin> fst ` set un"
  shows "wfGraph (removeLarger g w wLabel un)"
    and "v \<in> dom (map_of (adjacencyMap (removeLarger g w wLabel un)))"
proof -
  from assms(3) have "\<forall>kv\<in>set un. fst kv \<noteq> w \<and> \<not> vecLess (snd kv) wLabel \<longrightarrow> fst kv \<noteq> v"
    by auto
  from removeVertices_wf [OF assms(1,2) this]
  show "wfGraph (removeLarger g w wLabel un)"
    and "v \<in> dom (map_of (adjacencyMap (removeLarger g w wLabel un)))"
    by (simp_all add: removeLarger_def)
qed

lemma lexmLabels_returns:
  "wfGraph subgraph \<Longrightarrow> v \<in> dom (map_of (adjacencyMap subgraph)) \<Longrightarrow> v \<notin> fst ` set un \<Longrightarrow>
   set ws \<subseteq> fst ` set un \<Longrightarrow>
   \<exists>un'. lexmLabels v i numbered ws subgraph un = Some (Inr un') \<and> map fst un' = map fst un"
proof (induction ws arbitrary: subgraph un)
  case Nil
  then show ?case by simp
next
  case (Cons w ws)
  from Cons.prems(4) have "w \<in> fst ` set un" by simp
  then obtain wLabel where wl: "map_of un w = Some wLabel"
    by (metis domD dom_map_of_conv_image_fst)
  let ?g1 = "removeNumbered subgraph v numbered"
  let ?g2 = "removeLarger ?g1 w wLabel un"
  note g1 = removeNumbered_wf [OF Cons.prems(1,2), of numbered]
  note g2 = removeLarger_wf [OF g1 Cons.prems(3), of w wLabel]
  from hasPath_returns [OF g2, of w] obtain found where f: "hasPath ?g2 v w = Some (Inr found)" ..
  let ?un1 = "if found then AList.update w (addNumber wLabel i) un else un"
  have k: "map fst ?un1 = map fst un" using update_present_keys [OF wl] by simp
  have "set (map fst ?un1) = set (map fst un)" by (simp only: k)
  then have ks: "fst ` set ?un1 = fst ` set un" by (simp only: set_map)
  have a: "v \<notin> fst ` set ?un1" using Cons.prems(3) unfolding ks .
  have b: "set ws \<subseteq> fst ` set ?un1" using Cons.prems(4) unfolding ks by simp
  from Cons.IH [OF g2 a b] obtain un' where
    r: "lexmLabels v i numbered ws ?g2 ?un1 = Some (Inr un')" "map fst un' = map fst ?un1"
    by (elim exE conjE)
  from wl f r(1) have "lexmLabels v i numbered (w # ws) subgraph un = Some (Inr un')"
    by (simp add: Let_def)
  with r(2) k show ?case by simp
qed

lemma lexmLoop_permutation:
  assumes g: "getPrimalGraph cnf = Inr g" "wfGraph g"
  shows "distinct (map fst un) \<Longrightarrow> length un = k \<Longrightarrow>
   fst ` set un \<subseteq> dom (map_of (adjacencyMap g)) \<Longrightarrow>
   \<exists>rest. lexmLoop cnf k un numbered = Some (Inr (numbered @ rest)) \<and> distinct rest \<and>
     set rest = fst ` set un"
proof (induction k arbitrary: un numbered)
  case 0
  then show ?case by simp
next
  case (Suc k)
  from Suc.prems(2) have "un \<noteq> []" by auto
  from max_element_member [OF this] obtain e where
    e: "max_element un = Some e" "e \<in> set un" by (elim exE conjE)
  let ?v = "fst e"
  let ?un0 = "AList.delete ?v un"
  from e(2) Suc.prems(3) have v: "?v \<in> dom (map_of (adjacencyMap g))" by auto
  have k0: "map fst ?un0 = removeAll ?v (map fst un)" by (simp only: delete_keys)
  have s0: "fst ` set ?un0 = fst ` set un - {?v}" by (rule keys_delete)
  then have nv: "?v \<notin> fst ` set ?un0" by simp
  have ws: "set (map fst ?un0) \<subseteq> fst ` set ?un0" by simp
  from lexmLabels_returns [OF g(2) v nv ws, of "int (Suc k)" "numbered @ [?v]"] obtain un1 where
    u: "lexmLabels ?v (int (Suc k)) (numbered @ [?v]) (map fst ?un0) g ?un0 = Some (Inr un1)"
      "map fst un1 = map fst ?un0"
    by (elim exE conjE)
  have d: "distinct (map fst un1)" unfolding u(2) k0 using Suc.prems(1) by (rule distinct_removeAll)
  have "length un1 = length (map fst un1)" by simp
  also have "\<dots> = length ?un0" by (simp only: u(2) length_map)
  finally have l: "length un1 = k"
    using delete_member_length [OF Suc.prems(1) e(2)] Suc.prems(2) by simp
  have s: "fst ` set un1 = fst ` set un - {?v}"
    using arg_cong [OF u(2), of set] s0 by simp
  with Suc.prems(3) have "fst ` set un1 \<subseteq> dom (map_of (adjacencyMap g))" by auto
  from Suc.IH [OF d l this, of "numbered @ [?v]"] obtain rest where
    r: "lexmLoop cnf k un1 (numbered @ [?v]) = Some (Inr ((numbered @ [?v]) @ rest))"
      "distinct rest" "set rest = fst ` set un1"
    by (elim exE conjE)
  from e(1) g(1) u(1) r(1) have "lexmLoop cnf (Suc k) un numbered = Some (Inr (numbered @ (?v # rest)))"
    by (simp add: Let_def)
  moreover from r(2,3) s have "distinct (?v # rest)" by simp
  moreover from r(3) s e(2) have "set (?v # rest) = fst ` set un" by auto
  ultimately show ?case by blast
qed

lemma getLexmVarOrder_permutation:
  assumes "\<forall>c\<in>set (clauses cnf). \<forall>l\<in>set c. \<bar>l\<bar> \<in> set (apparentVars cnf)"
    and "distinct (apparentVars cnf)"
  shows "\<exists>order. getLexmVarOrder cnf = Some (Inr order) \<and> distinct order \<and>
           set order = set (apparentVars cnf)"
proof -
  from getPrimalGraph_wf [OF assms(1)] obtain g where
    g: "getPrimalGraph cnf = Inr g" "wfGraph g" "set (vertices g) = set (apparentVars cnf)"
    by (elim exE conjE)
  let ?un = "emptyLabels (apparentVars cnf)"
  have k: "map fst ?un = apparentVars cnf" by (rule emptyLabels_keys [OF assms(2)])
  then have d: "distinct (map fst ?un)" using assms(2) by simp
  have l: "length ?un = length (apparentVars cnf)" using arg_cong [OF k, of length] by simp
  have s: "fst ` set ?un = set (apparentVars cnf)" using arg_cong [OF k, of set] by simp
  then have "fst ` set ?un \<subseteq> dom (map_of (adjacencyMap g))"
    using g(3) wfGraph_keys [OF g(2)] by simp
  from lexmLoop_permutation [OF g(1,2) d l this, of "[]"] obtain rest where
    "lexmLoop cnf (length (apparentVars cnf)) ?un [] = Some (Inr ([] @ rest))" "distinct rest"
    "set rest = fst ` set ?un"
    by (elim exE conjE)
  with g(1) s show ?thesis by (simp add: getLexmVarOrder_def)
qed

subsection \<open>Random, declared and most-clauses orders\<close>

lemma getDeclaredVarOrder_permutation:
  assumes "set (apparentVars cnf) \<subseteq> {1 .. declaredVarCount cnf}"
  shows "distinct (getDeclaredVarOrder cnf)"
    and "set (getDeclaredVarOrder cnf) = set (apparentVars cnf)"
  using assms by (auto simp: getDeclaredVarOrder_def)

lemma multimapInsert_values:
  "set (map snd (multimapInsert kv m)) = insert (snd kv) (set (map snd m))"
  "distinct (map snd (multimapInsert kv m)) \<longleftrightarrow> snd kv \<notin> set (map snd m) \<and> distinct (map snd m)"
  by (induction m) auto

lemma mostClauses_fold:
  "distinct (map fst xs) \<Longrightarrow> distinct (map snd acc) \<Longrightarrow> set (map fst xs) \<inter> set (map snd acc) = {} \<Longrightarrow>
   distinct (map snd (foldl (\<lambda>m varAndSet.
       multimapInsert (int (length (snd varAndSet)), fst varAndSet) m) acc xs)) \<and>
   set (map snd (foldl (\<lambda>m varAndSet.
       multimapInsert (int (length (snd varAndSet)), fst varAndSet) m) acc xs)) =
     set (map snd acc) \<union> set (map fst xs)"
proof (induction xs arbitrary: acc)
  case Nil
  then show ?case by simp
next
  case (Cons x xs)
  let ?acc1 = "multimapInsert (int (length (snd x)), fst x) acc"
  have s: "set (map snd ?acc1) = insert (fst x) (set (map snd acc))"
    by (simp only: multimapInsert_values(1) snd_conv)
  have d: "distinct (map snd ?acc1)"
    using Cons.prems(2,3) by (simp only: multimapInsert_values(2) snd_conv) auto
  have i: "set (map fst xs) \<inter> set (map snd ?acc1) = {}"
    unfolding s using Cons.prems(1,3) by auto
  from Cons.prems(1) have "distinct (map fst xs)" by simp
  from Cons.IH [OF this d i] s show ?case by simp
qed

lemma getMostClausesVarOrder_permutation:
  assumes "distinct (map fst (varToClauses cnf))"
  shows "distinct (getMostClausesVarOrder cnf)"
    and "set (getMostClausesVarOrder cnf) = fst ` set (varToClauses cnf)"
  using mostClauses_fold [OF assms, of "[]"] by (simp_all add: getMostClausesVarOrder_def)

subsection \<open>The invariant of the constructor\<close>

lemma parseInvariant_frame:
  "parseInvariant st \<Longrightarrow> clauses st' = clauses st \<Longrightarrow> varToClauses st' = varToClauses st \<Longrightarrow>
   apparentVars st' = apparentVars st \<Longrightarrow> parseInvariant st'"
  by (simp add: parseInvariant_def)

lemma update_key_set: "fst ` set (AList.update k v al) = insert k (fst ` set al)"
  using dom_update [of k v al] by simp

lemma indexClause_keys:
  "fst ` set (indexClause i c v2c) = fst ` set v2c \<union> abs ` set c"
proof (induction c arbitrary: v2c)
  case Nil
  then show ?case by simp
next
  case (Cons l c)
  show ?case
    by (cases "map_of v2c \<bar>l\<bar>") (simp_all add: Cons.IH update_key_set Let_def)
qed

lemma indexClause_distinct:
  "distinct (map fst v2c) \<Longrightarrow> distinct (map fst (indexClause i c v2c))"
proof (induction c arbitrary: v2c)
  case Nil
  then show ?case by simp
next
  case (Cons l c)
  show ?case
    by (cases "map_of v2c \<bar>l\<bar>") (simp_all add: Cons.IH Cons.prems distinct_update Let_def)
qed

lemma addClause_invariant:
  assumes "parseInvariant cnf"
  shows "parseInvariant (addClause cnf clause type weight comparator coefs k)"
  using assms
  by (auto simp: parseInvariant_def addClause_def Let_def indexClause_keys indexClause_distinct)

lemma problemLine_frame:
  "problemLine env st words = Inr st' \<Longrightarrow>
   clauses st' = clauses st \<and> varToClauses st' = varToClauses st \<and>
   apparentVars st' = apparentVars st"
  by (auto simp: problemLine_def bindE_def Let_def split: if_splits sum.splits)

lemma problemLine_invariant:
  "problemLine env st words = Inr st' \<Longrightarrow> parseInvariant st \<Longrightarrow> parseInvariant st'"
  using problemLine_frame [of env st words st'] parseInvariant_frame [of st st'] by simp

lemma wboLine_invariant:
  "wboLine st words = Inr st' \<Longrightarrow> parseInvariant st \<Longrightarrow> parseInvariant st'"
  by (auto simp: wboLine_def bindE_Inr_iff parseInvariant_def)

lemma weightLine_invariant:
  "weightLine env st words = Inr st' \<Longrightarrow> parseInvariant st \<Longrightarrow> parseInvariant st'"
  by (auto simp: weightLine_def bindE_Inr_iff parseInvariant_def split: if_splits)

lemma showLoop_invariant:
  "showLoop env words i st = Inr st' \<Longrightarrow> parseInvariant st \<Longrightarrow> parseInvariant st'"
proof (induction env words i st rule: showLoop.induct)
  case (1 env words i st)
  note eq = showLoop.simps [of env words i st]
  show ?case
  proof (cases "i < length words")
    case False
    with "1.prems" eq show ?thesis by simp
  next
    case True
    let ?st1 = "st\<lparr>minMaxsatSolving := maxsatSolving env\<rparr>"
    let ?st2 = "\<lambda>num. ?st1\<lparr>additiveVars := insert num (additiveVars ?st1)\<rparr>"
    have p1: "parseInvariant ?st1" using "1.prems"(2) by (simp add: parseInvariant_def)
    have p2: "parseInvariant (?st2 num)" for num
      using "1.prems"(2) by (simp add: parseInvariant_def)
    from "1.prems"(1) eq True obtain num where
      num: "bindE (at_vec words i) stoll = Inr num"
      and r: "(if num = 0 then
             (if i \<noteq> length words - 1
              then Inl (MyError ''additive vars terminated prematurely by 0 | line '')
              else showLoop env words (i + 1) ?st1)
           else if num < 0 \<or> num > declaredVarCount ?st1 then Inl (MyError ''var '')
           else showLoop env words (i + 1) (?st2 num)) = Inr st'"
      by (simp add: Let_def bindE_Inr_iff [where r = "bindE (at_vec words i) stoll"]) blast
    show ?thesis
    proof (cases "num = 0")
      case z: True
      with r have l: "i = length words - 1" and rr: "showLoop env words (i + 1) ?st1 = Inr st'"
        by (simp_all split: if_splits)
      from l have nl: "\<not> i \<noteq> length words - 1" by simp
      from "1.IH"(1) [OF True refl z nl rr p1] show ?thesis .
    next
      case nz: False
      with r have ok: "\<not> (num < 0 \<or> num > declaredVarCount ?st1)"
        and rr: "showLoop env words (i + 1) (?st2 num) = Inr st'"
        by (simp_all split: if_splits)
      from "1.IH"(2) [OF True refl nz ok rr p2] show ?thesis .
    qed
  qed
qed

lemma showLine_invariant:
  "showLine env st words = Inr st' \<Longrightarrow> parseInvariant st \<Longrightarrow> parseInvariant st'"
  by (auto simp: showLine_def showLoop_invariant split: if_splits)

lemma weightOrShowLine_invariant:
  "weightOrShowLine env st words = Inr st' \<Longrightarrow> parseInvariant st \<Longrightarrow> parseInvariant st'"
  by (auto simp: weightOrShowLine_def weightLine_invariant showLine_invariant split: if_splits)

lemma pbConstraint_invariant:
  assumes "pbConstraint st words weight = Inr st'" and "parseInvariant st"
  shows "parseInvariant st'"
  using assms unfolding pbConstraint_def
  apply (auto simp: bindE_Inr_iff Let_def)
  subgoal for a b v
    by (cases "PB_canonicalize a b v (comparatorCode (words ! (length words - 3)))")
      (auto simp: addClause_invariant)
  done

lemma clauseLoop_invariant:
  "clauseLoop env catchWeight line words i clause type weight st = Inr st' \<Longrightarrow>
   parseInvariant st \<Longrightarrow> parseInvariant st'"
proof (induction env catchWeight line words i clause type weight st rule: clauseLoop.induct)
  case (1 env catchWeight line words i clause type weight st)
  note eq = clauseLoop.simps [of env catchWeight line words i clause type weight st]
  show ?case
  proof (cases "i < length words")
    case False
    with "1.prems" eq show ?thesis by simp
  next
    case True
    show ?thesis
    proof (cases "words ! i = ''x''")
      case x: True
      from "1.prems"(1) have
        "clauseLoop env catchWeight line words (i + 1) clause (CHR ''x'') weight st = Inr st'"
        unfolding eq if_P [OF True] if_P [OF x] .
      from "1.IH"(1) [OF True x this "1.prems"(2)] show ?thesis .
    next
      case nx: False
      show ?thesis
      proof (cases "(catchWeight \<and> type = CHR ''c'' \<and> i = 0) \<or> (catchWeight \<and> type = CHR ''x'' \<and> i = 1)")
        case cw: True
        from "1.prems"(1) have
          "bindE (stod env (words ! i)) (\<lambda>w.
             clauseLoop env catchWeight line words (i + 1) clause type w st) = Inr st'"
          unfolding eq if_P [OF True] if_not_P [OF nx] if_P [OF cw] .
        then obtain w where w: "stod env (words ! i) = Inr w"
          and r: "clauseLoop env catchWeight line words (i + 1) clause type w st = Inr st'"
          by (auto simp: bindE_Inr_iff)
        from "1.IH"(2) [OF True nx cw r "1.prems"(2)] show ?thesis .
      next
        case ncw: False
        let ?st1 = "(addClause st clause type weight (defaultComparator env)
                           (defaultCoefs env) (defaultK env))
                        \<lparr>processedClauseCount := processedClauseCount st + 1\<rparr>"
        from "1.prems"(1) have
          "bindE (stoll (words ! i)) (\<lambda>num.
             if num > declaredVarCount st \<or> num < - declaredVarCount st
             then Inl (MyError ''literal '')
             else if num = 0 then
               (if i \<noteq> length words - 1
                then Inl (MyError ''clause terminated prematurely by 0 | line '')
                else if clause = [] then Inl (EmptyClauseException (lineIndex st) line)
                else clauseLoop env catchWeight line words (i + 1) clause type weight ?st1)
             else
               (if i = length words - 1
                then Inl (MyError ''missing end-of-clause indicator 0 | line '')
                else clauseLoop env catchWeight line words (i + 1) (List.insert num clause)
                       type weight st)) = Inr st'"
          unfolding eq if_P [OF True] if_not_P [OF nx] if_not_P [OF ncw] .
        then obtain num where num: "stoll (words ! i) = Inr num"
          and r: "(if num > declaredVarCount st \<or> num < - declaredVarCount st
             then Inl (MyError ''literal '')
             else if num = 0 then
               (if i \<noteq> length words - 1
                then Inl (MyError ''clause terminated prematurely by 0 | line '')
                else if clause = [] then Inl (EmptyClauseException (lineIndex st) line)
                else clauseLoop env catchWeight line words (i + 1) clause type weight ?st1)
             else
               (if i = length words - 1
                then Inl (MyError ''missing end-of-clause indicator 0 | line '')
                else clauseLoop env catchWeight line words (i + 1) (List.insert num clause)
                       type weight st)) = Inr st'"
          by (auto simp: bindE_Inr_iff)
        from r have rg: "\<not> (num > declaredVarCount st \<or> num < - declaredVarCount st)"
          by (auto split: if_splits)
        show ?thesis
        proof (cases "num = 0")
          case z: True
          with r rg have l: "\<not> i \<noteq> length words - 1" and ne: "clause \<noteq> []"
            and rr: "clauseLoop env catchWeight line words (i + 1) clause type weight ?st1 = Inr st'"
            by (auto split: if_splits)
          have "parseInvariant ?st1"
            using addClause_invariant [OF "1.prems"(2), of clause type weight "defaultComparator env"
                "defaultCoefs env" "defaultK env"]
            by (simp add: parseInvariant_def)
          from "1.IH"(3) [OF True nx ncw rg z l ne rr this] show ?thesis .
        next
          case nz: False
          with r rg have l: "\<not> i = length words - 1"
            and rr: "clauseLoop env catchWeight line words (i + 1) (List.insert num clause)
                       type weight st = Inr st'"
            by (auto split: if_splits)
          from "1.IH"(4) [OF True nx ncw rg nz l rr "1.prems"(2)] show ?thesis .
        qed
      qed
    qed
  qed
qed

lemma clauseLine_invariant:
  assumes "clauseLine env st line words = Inr st'" and "parseInvariant st"
  shows "parseInvariant st'"
proof -
  from assms(1) have "(\<exists>ws weight. pbConstraint st ws weight = Inr st')
      \<or> (\<exists>cw ws weight. clauseLoop env cw line ws 0 [] (CHR ''c'') weight st = Inr st')"
    unfolding clauseLine_def
    by (auto simp: bindE_Inr_iff Let_def split: if_splits)
  then show ?thesis
  proof
    assume "\<exists>ws weight. pbConstraint st ws weight = Inr st'"
    then obtain ws weight where "pbConstraint st ws weight = Inr st'" by (elim exE)
    from pbConstraint_invariant [OF this assms(2)] show ?thesis .
  next
    assume "\<exists>cw ws weight. clauseLoop env cw line ws 0 [] (CHR ''c'') weight st = Inr st'"
    then obtain cw ws weight where
      "clauseLoop env cw line ws 0 [] (CHR ''c'') weight st = Inr st'" by (elim exE)
    from clauseLoop_invariant [OF this assms(2)] show ?thesis .
  qed
qed

lemma otherLine_invariant:
  "otherLine env st line words = Inr st' \<Longrightarrow> parseInvariant st \<Longrightarrow> parseInvariant st'"
  unfolding otherLine_def
  by (auto simp: weightOrShowLine_invariant clauseLine_invariant split: if_splits)

lemma processLine_invariant:
  assumes "processLine env st line = Inr st'" and "parseInvariant st"
  shows "parseInvariant st'"
proof -
  let ?st = "st\<lparr>lineIndex := lineIndex st + 1\<rparr>"
  have p: "parseInvariant ?st" using assms(2) by (simp add: parseInvariant_def)
  from assms(1) have "st' = ?st \<or> problemLine env ?st (splitInputLine line) = Inr st'
      \<or> wboLine ?st (splitInputLine line) = Inr st'
      \<or> otherLine env ?st line (splitInputLine line) = Inr st'"
    by (auto simp: processLine_def Let_def bindE_Inr_iff split: if_splits)
  with p show ?thesis
    by (auto simp: problemLine_invariant wboLine_invariant otherLine_invariant)
qed

lemma parseLines_invariant:
  "parseLines env st lines = Inr st' \<Longrightarrow> parseInvariant st \<Longrightarrow> parseInvariant st'"
proof (induction lines arbitrary: st)
  case Nil
  then show ?case by simp
next
  case (Cons line lines)
  from Cons.prems(1) obtain st1 where "processLine env st line = Inr st1"
    "parseLines env st1 lines = Inr st'"
    by (auto simp: bindE_Inr_iff)
  with Cons.IH [of st1] processLine_invariant [of env st line st1] Cons.prems(2) show ?case
    by simp
qed

lemma finishCnf_fields:
  assumes "finishCnf env st = Inr st'"
  shows "declaredVarCount st' = declaredVarCount st" and "clauses st' = clauses st"
    and "varToClauses st' = varToClauses st"
    and "apparentVars st' = apparentVars (setApparentVars st)"
  using assms
  by (auto simp: finishCnf_def Let_def setApparentVars_def bindE_def split: if_splits sum.splits)

lemma setApparentVars_fold:
  "distinct vars \<Longrightarrow>
   distinct (foldl (\<lambda>vars kv. List.insert (fst kv) vars) vars v2c) \<and>
   set (foldl (\<lambda>vars kv. List.insert (fst kv) vars) vars v2c) = set vars \<union> fst ` set v2c"
  by (induction v2c arbitrary: vars) (auto simp: distinct_insert)

text \<open>The constructor establishes the invariant on which the variable orders rely.\<close>

lemma parseCnf_invariant:
  assumes "parseCnf env lines = Inr cnf"
  shows "cnfInvariant cnf"
proof -
  from assms obtain st where st: "parseLines env (initialParse env) lines = Inr st"
    and fin: "finishCnf env st = Inr cnf"
    by (auto simp: parseCnf_def bindE_Inr_iff)
  have "parseInvariant (initialParse env)" by (simp add: parseInvariant_def initialParse_def)
  from parseLines_invariant [OF st this] have p: "apparentVars st = []"
    "distinct (map fst (varToClauses st))"
    "\<forall>c\<in>set (clauses st). \<forall>l\<in>set c. \<bar>l\<bar> \<in> fst ` set (varToClauses st)"
    by (simp_all add: parseInvariant_def)
  note f = finishCnf_fields [OF fin]
  from setApparentVars_fold [of "[]" "varToClauses st"] p(1) f(4)
  have a: "distinct (apparentVars cnf)" "set (apparentVars cnf) = fst ` set (varToClauses st)"
    by (simp_all add: setApparentVars_def)
  with p(2,3) f(2,3) show ?thesis by (simp add: cnfInvariant_def)
qed

subsection \<open>Variable orders\<close>

lemma heuristicOrder_permutation:
  assumes inv: "cnfInvariant cnf"
    and range: "code = DECLARED env \<longrightarrow> set (apparentVars cnf) \<subseteq> {1 .. declaredVarCount cnf}"
    and mn: "MIN_INT env < 0" and mnv: "MIN_INT env \<notin> set (apparentVars cnf)"
    and mx: "int (length (apparentVars cnf)) * int (length (apparentVars cnf)) < MAX_INT env"
    and sh: "\<forall>xs. length (shuffle env (randomSeed env) xs) = length xs \<and>
               set (shuffle env (randomSeed env) xs) = set xs"
    and code: "code \<in> {RANDOM env, DECLARED env, MOST_CLAUSES env, MINFILL env, MCS env,
                 LEXP env, LEXM env}"
  shows "\<exists>order. heuristicOrder env cnf code = Some (Inr order) \<and> distinct order \<and>
           set order = set (apparentVars cnf)"
proof -
  from inv have d: "distinct (apparentVars cnf)" and dk: "distinct (map fst (varToClauses cnf))"
    and ks: "set (apparentVars cnf) = fst ` set (varToClauses cnf)"
    and cl: "\<forall>c\<in>set (clauses cnf). \<forall>l\<in>set c. \<bar>l\<bar> \<in> set (apparentVars cnf)"
    unfolding cnfInvariant_def by blast+
  let ?r = "getRandomVarOrder (shuffle env) (randomSeed env) cnf"
  from sh have rl: "length ?r = length (apparentVars cnf)" and rs: "set ?r = set (apparentVars cnf)"
    by (simp_all add: getRandomVarOrder_def)
  from d have "card (set (apparentVars cnf)) = length (apparentVars cnf)" by (rule distinct_card)
  with rl rs have "card (set ?r) = length ?r" by simp
  then have rd: "distinct ?r" by (rule card_distinct)
  note mc = getMostClausesVarOrder_permutation [OF dk]
  note mf = getMinfillVarOrder_permutation [OF cl mnv mx]
  note mcs = getMcsVarOrder_permutation [OF cl mn]
  note lexp = getLexpVarOrder_permutation [OF cl d]
  note lexm = getLexmVarOrder_permutation [OF cl d]
  show ?thesis
  proof (cases "code = RANDOM env")
    case True
    with rd rs show ?thesis by (simp add: heuristicOrder_def)
  next
    case c1: False
    show ?thesis
    proof (cases "code = DECLARED env")
      case True
      with range have "set (apparentVars cnf) \<subseteq> {1 .. declaredVarCount cnf}" by simp
      from getDeclaredVarOrder_permutation [OF this] True c1 show ?thesis
        by (simp add: heuristicOrder_def)
    next
      case c2: False
      show ?thesis
      proof (cases "code = MOST_CLAUSES env")
        case True
        with c1 c2 mc ks show ?thesis by (simp add: heuristicOrder_def)
      next
        case c3: False
        show ?thesis
        proof (cases "code = MINFILL env")
          case True
          with c1 c2 c3 mf show ?thesis by (simp add: heuristicOrder_def)
        next
          case c4: False
          show ?thesis
          proof (cases "code = MCS env")
            case True
            with c1 c2 c3 c4 mcs show ?thesis by (simp add: heuristicOrder_def)
          next
            case c5: False
            show ?thesis
            proof (cases "code = LEXP env")
              case True
              with c1 c2 c3 c4 c5 lexp show ?thesis by (simp add: heuristicOrder_def)
            next
              case c6: False
              with c1 c2 c3 c4 c5 code have "code = LEXM env" by simp
              with c1 c2 c3 c4 c5 c6 lexm show ?thesis by (simp add: heuristicOrder_def)
            qed
          qed
        qed
      qed
    qed
  qed
qed

text \<open>
  On a formula whose apparent variables are the keys of \<^verbatim>\<open>varToClauses\<close> and the
  variables of its clauses, and for every code \<open>h\<close> with \<open>\<bar>h\<bar>\<close> one of the seven heuristics,
  \<^verbatim>\<open>getCnfVarOrder(h)\<close> returns a permutation of \<^verbatim>\<open>apparentVars\<close>, and for \<open>h \<noteq> 0\<close> the call
  \<^verbatim>\<open>getCnfVarOrder(-h)\<close> returns its reverse (a code 0 is its own negation). Only the
  declared order needs the apparent variables to lie in \<open>1 .. declaredVarCount\<close>.
  \<^verbatim>\<open>MIN_INT\<close> is negative and no variable, \<^verbatim>\<open>MAX_INT\<close> exceeds the square of the number of
  apparent variables, and \<^verbatim>\<open>std::shuffle\<close> keeps the length and the elements of a vector.
\<close>

lemma getCnfVarOrder_permutation:
  assumes "cnfInvariant cnf"
    and "\<bar>h\<bar> = DECLARED env \<longrightarrow> set (apparentVars cnf) \<subseteq> {1 .. declaredVarCount cnf}"
    and "MIN_INT env < 0" and "MIN_INT env \<notin> set (apparentVars cnf)"
    and "int (length (apparentVars cnf)) * int (length (apparentVars cnf)) < MAX_INT env"
    and "\<forall>xs. length (shuffle env (randomSeed env) xs) = length xs \<and>
           set (shuffle env (randomSeed env) xs) = set xs"
    and "\<bar>h\<bar> \<in> {RANDOM env, DECLARED env, MOST_CLAUSES env, MINFILL env, MCS env,
           LEXP env, LEXM env}"
  shows "\<exists>order. getCnfVarOrder env cnf h = Some (Inr order) \<and> distinct order \<and>
           set order = set (apparentVars cnf) \<and>
           (h \<noteq> 0 \<longrightarrow> getCnfVarOrder env cnf (- h) = Some (Inr (rev order)))"
proof -
  from heuristicOrder_permutation [OF assms] obtain base where
    b: "heuristicOrder env cnf \<bar>h\<bar> = Some (Inr base)" "distinct base"
      "set base = set (apparentVars cnf)"
    by (elim exE conjE)
  show ?thesis
  proof (cases "h < 0")
    case True
    with b(1) have "getCnfVarOrder env cnf h = Some (Inr (rev base))"
      and "getCnfVarOrder env cnf (- h) = Some (Inr (rev (rev base)))"
      by (simp_all add: getCnfVarOrder_def)
    with b(2,3) show ?thesis by simp
  next
    case False
    with b(1) have "getCnfVarOrder env cnf h = Some (Inr base)"
      and "h \<noteq> 0 \<longrightarrow> getCnfVarOrder env cnf (- h) = Some (Inr (rev base))"
      by (simp_all add: getCnfVarOrder_def)
    with b(2,3) show ?thesis by simp
  qed
qed

lemma exampleOrderEnv_fields:
  "MIN_INT exampleOrderEnv = - (2 ^ 63)" "MAX_INT exampleOrderEnv = 2 ^ 63 - 1"
  "RANDOM exampleOrderEnv = 1" "DECLARED exampleOrderEnv = 2" "MOST_CLAUSES exampleOrderEnv = 3"
  "MINFILL exampleOrderEnv = 4" "MCS exampleOrderEnv = 5" "LEXP exampleOrderEnv = 6"
  "LEXM exampleOrderEnv = 7" "randomSeed exampleOrderEnv = 0"
  "shuffle exampleOrderEnv = (\<lambda>seed xs. rev xs)"
  by (simp_all add: exampleOrderEnv_def Env.extend_def exampleEnv_def)

lemma exampleEnv_returns:
  assumes "parseLines (exampleEnv weighted projected maxsat)
      (initialParse (exampleEnv weighted projected maxsat)) lines = Inr st"
    and "problemLineIndex st \<noteq> - (2 ^ 63)"
  shows "\<exists>st'. parseCnf (exampleEnv weighted projected maxsat) lines = Inr st' \<and>
    declaredVarCount st' = declaredVarCount st \<and> clauses st' = clauses st \<and>
    varToClauses st' = varToClauses st \<and> apparentVars st' = apparentVars (setApparentVars st)"
proof -
  let ?E = "exampleEnv weighted projected maxsat"
  have "problemLineIndex st \<noteq> MIN_INT ?E" "\<not> logCounting ?E"
    using assms(2) by (simp_all add: exampleEnv_def)
  from finishCnf_returns [OF this(1) exampleEnv_one this(2)] obtain st' where
    f: "finishCnf ?E st = Inr st'" ..
  with assms(1) have "parseCnf ?E lines = Inr st'" by (simp add: parseCnf_def bindE_def)
  with finishCnf_fields [OF f] show ?thesis by simp
qed

text \<open>The formula of the file \<open>p cnf 4 3 / 1 -2 0 / -2 3 0 / 3 4 1 0\<close> under \<^verbatim>\<open>LEXM\<close>.\<close>

lemma getCnfVarOrder_permutation_example:
  "\<exists>cnf order.
     parseCnf (exampleEnv False False False) [''p cnf 4 3'', ''1 -2 0'', ''-2 3 0'', ''3 4 1 0'']
       = Inr cnf \<and>
     getCnfVarOrder exampleOrderEnv cnf (- LEXM exampleOrderEnv) = Some (Inr order) \<and>
     distinct order \<and> set order = {1, 2, 3, 4} \<and>
     getCnfVarOrder exampleOrderEnv cnf (LEXM exampleOrderEnv) = Some (Inr (rev order))"
proof -
  let ?E = "exampleEnv False False False"
  let ?ls = "[''p cnf 4 3'', ''1 -2 0'', ''-2 3 0'', ''3 4 1 0'']"
  note ev = processLine_def splitInputLine_def isSpace_def problemLine_def
    exampleEnv_def initialParse_def bindE_def at_vec_def stoll_def strtoInt_def isDigit_def
    digitValue_def otherLine_def starts_with_def clauseLine_def clauseLoop.simps
    addClause_def Let_def
  have "\<exists>st. parseLines ?E (initialParse ?E) ?ls = Inr st \<and> declaredVarCount st = 4 \<and>
          clauses st = [[- 2, 1], [3, - 2], [1, 4, 3]] \<and>
          varToClauses st = [(2, [1, 0]), (1, [2, 0]), (3, [2, 1]), (4, [2])] \<and>
          apparentVars st = [] \<and> problemLineIndex st = 1"
    by (simp add: ev)
  then obtain st0 where st0: "parseLines ?E (initialParse ?E) ?ls = Inr st0"
    "declaredVarCount st0 = 4" "clauses st0 = [[- 2, 1], [3, - 2], [1, 4, 3]]"
    "varToClauses st0 = [(2, [1, 0]), (1, [2, 0]), (3, [2, 1]), (4, [2])]"
    "apparentVars st0 = []" "problemLineIndex st0 = 1"
    by (elim exE conjE)
  from exampleEnv_returns [OF st0(1)] st0(6) obtain st where st1: "parseCnf ?E ?ls = Inr st"
    "declaredVarCount st = declaredVarCount st0" "clauses st = clauses st0"
    "varToClauses st = varToClauses st0" "apparentVars st = apparentVars (setApparentVars st0)"
    by auto
  then have st: "parseCnf ?E ?ls = Inr st" "declaredVarCount st = 4"
    "clauses st = [[- 2, 1], [3, - 2], [1, 4, 3]]"
    "varToClauses st = [(2, [1, 0]), (1, [2, 0]), (3, [2, 1]), (4, [2])]"
    "apparentVars st = [4, 3, 1, 2]"
    by (simp_all add: st0 setApparentVars_def)
  have inv: "cnfInvariant st" by (auto simp: cnfInvariant_def st)
  have range: "\<bar>- LEXM exampleOrderEnv\<bar> = DECLARED exampleOrderEnv \<longrightarrow>
      set (apparentVars st) \<subseteq> {1 .. declaredVarCount st}" by (simp add: st)
  have mn: "MIN_INT exampleOrderEnv < 0" "MIN_INT exampleOrderEnv \<notin> set (apparentVars st)"
    by (simp_all add: st exampleOrderEnv_fields)
  have mx: "int (length (apparentVars st)) * int (length (apparentVars st))
      < MAX_INT exampleOrderEnv"
    by (simp add: st exampleOrderEnv_fields)
  have sh: "\<forall>xs. length (shuffle exampleOrderEnv (randomSeed exampleOrderEnv) xs) = length xs \<and>
      set (shuffle exampleOrderEnv (randomSeed exampleOrderEnv) xs) = set xs"
    by (simp add: exampleOrderEnv_fields)
  have h: "\<bar>- LEXM exampleOrderEnv\<bar> \<in> {RANDOM exampleOrderEnv, DECLARED exampleOrderEnv,
      MOST_CLAUSES exampleOrderEnv, MINFILL exampleOrderEnv, MCS exampleOrderEnv,
      LEXP exampleOrderEnv, LEXM exampleOrderEnv}"
    by (simp add: exampleOrderEnv_fields)
  have vars: "set (apparentVars st) = {1, 2, 3, 4}" unfolding st by auto
  have "LEXM exampleOrderEnv \<noteq> 0" by (simp add: exampleOrderEnv_fields)
  with getCnfVarOrder_permutation [OF inv range mn mx sh h] obtain order where
    "getCnfVarOrder exampleOrderEnv st (- LEXM exampleOrderEnv) = Some (Inr order)"
    "distinct order" "set order = set (apparentVars st)"
    "getCnfVarOrder exampleOrderEnv st (LEXM exampleOrderEnv) = Some (Inr (rev order))"
    by auto
  with st(1) vars show ?thesis by blast
qed

text \<open>
  Claim C4. Every heuristic is to return a permutation of \<^verbatim>\<open>apparentVars\<close>, and a negated
  code its reverse. On the formulas that the constructor builds this holds of six heuristics,
  and of the declared order when the apparent variables lie in \<open>1 .. declaredVarCount\<close>
  (lemmas \<open>parseCnf_invariant\<close> and \<open>getCnfVarOrder_permutation\<close>). The parser checks the
  literals of a clause against \<^verbatim>\<open>declaredVarCount\<close>, and the variables of a pseudo-Boolean
  constraint not: the file \<open>p cnf 1 1 / 1 x5 >= 1 0\<close> gives a formula with the apparent
  variable 5, which the declared order, counting from 1 to \<^verbatim>\<open>declaredVarCount\<close>, never
  reaches. The order returned is empty, and no permutation of \<^verbatim>\<open>apparentVars\<close>.
\<close>

theorem getDeclaredVarOrder_misses_variable:
  "map_sum id
     (\<lambda>cnf. (declaredVarCount cnf, apparentVars cnf,
             getCnfVarOrder exampleOrderEnv cnf (DECLARED exampleOrderEnv)))
     (parseCnf (exampleEnv False False False) [''p cnf 1 1'', ''1 x5 >= 1 0''])
   = Inr (1, [5], Some (Inr []))"
proof -
  let ?E = "exampleEnv False False False"
  let ?ls = "[''p cnf 1 1'', ''1 x5 >= 1 0'']"
  note ev = processLine_def splitInputLine_def isSpace_def problemLine_def
    exampleEnv_def initialParse_def bindE_def at_vec_def stoll_def stoi_def strtoInt_def isDigit_def
    digitValue_def otherLine_def starts_with_def clauseLine_def pbConstraint_def termCount_def
    termLoop.simps substr_def comparatorCode_def PB_canonicalize_def int32_def touch_def
    valueAt_def addClause_def Let_def
  have "\<exists>st. parseLines ?E (initialParse ?E) ?ls = Inr st \<and> declaredVarCount st = 1 \<and>
          varToClauses st = [(5, [0])] \<and> apparentVars st = [] \<and> problemLineIndex st = 1"
    by (simp add: ev)
  then obtain st0 where st0: "parseLines ?E (initialParse ?E) ?ls = Inr st0"
    "declaredVarCount st0 = 1" "varToClauses st0 = [(5, [0])]" "apparentVars st0 = []"
    "problemLineIndex st0 = 1"
    by (elim exE conjE)
  from exampleEnv_returns [OF st0(1)] st0(5) obtain st where st1: "parseCnf ?E ?ls = Inr st"
    "declaredVarCount st = declaredVarCount st0"
    "apparentVars st = apparentVars (setApparentVars st0)"
    by auto
  then have st: "parseCnf ?E ?ls = Inr st" "declaredVarCount st = 1" "apparentVars st = [5]"
    by (simp_all add: st0 setApparentVars_def)
  have "getCnfVarOrder exampleOrderEnv st (DECLARED exampleOrderEnv) = Some (Inr [])"
    using st(2,3)
    by (simp add: getCnfVarOrder_def heuristicOrder_def exampleOrderEnv_fields
        getDeclaredVarOrder_def)
  with st show ?thesis by simp
qed

end
